theory Spec2Isabelle
  imports Complex_Main "HOL-Library.Word" "HOL-Library.Signed_Division" "HOL-Library.Multiset"
begin

section \<open>Floating-point values\<close>

text \<open>
  The engine computes with C \<^verbatim>\<open>float\<close> (IEEE-754 binary32) and \<^verbatim>\<open>double\<close>
  (binary64). A value of either type is a finite real, an infinity or a NaN. An operation
  is the exact operation on these values followed by rounding to the format of its C type
  (round to nearest, ties to even, with gradual underflow and overflow to infinity), which
  is what an x86-64 build does (\<^verbatim>\<open>FLT_EVAL_METHOD = 0\<close>). Two things are left out: the
  sign of zero (a zero divisor counts as \<open>+0\<close>), and the last-bit behaviour of the C
  library's \<^verbatim>\<open>expf\<close>, \<^verbatim>\<open>logf\<close>, \<^verbatim>\<open>cosf\<close>, \<^verbatim>\<open>sinf\<close>, which are taken as
  correctly rounded.
\<close>

datatype fl = Fin real | PInf | NInf | NaN

record format =
  prec :: nat
  emin :: int
  emax :: int

definition binary32 :: format where
  "binary32 = \<lparr>prec = 24, emin = - 126, emax = 127\<rparr>"

definition binary64 :: format where
  "binary64 = \<lparr>prec = 53, emin = - 1022, emax = 1023\<rparr>"

text \<open>Rounding a real to the nearest integer, ties to the even one.\<close>

definition rne :: "real \<Rightarrow> int" where
  "rne y =
     (let f = \<lfloor>y\<rfloor>; r = y - of_int f
      in if r < 1 / 2 then f else if 1 / 2 < r then f + 1 else if even f then f else f + 1)"

text \<open>The spacing of the format's grid around \<open>x\<close> (constant below the normal range).\<close>

definition quantum :: "format \<Rightarrow> real \<Rightarrow> real" where
  "quantum F x = 2 powi (max (emin F) \<lfloor>log 2 \<bar>x\<bar>\<rfloor> - int (prec F) + 1)"

definition round_fin :: "format \<Rightarrow> real \<Rightarrow> real" where
  "round_fin F x = (if x = 0 then 0 else of_int (rne (x / quantum F x)) * quantum F x)"

definition rnd :: "format \<Rightarrow> fl \<Rightarrow> fl" where
  "rnd F v =
     (case v of
        Fin x \<Rightarrow>
          (let y = round_fin F x
           in if 2 powi (emax F + 1) \<le> \<bar>y\<bar> then (if y < 0 then NInf else PInf) else Fin y)
      | _ \<Rightarrow> v)"

subsection \<open>Exact operations on the extended values\<close>

definition fl_sign :: "fl \<Rightarrow> real" where
  "fl_sign v = (case v of Fin x \<Rightarrow> sgn x | PInf \<Rightarrow> 1 | NInf \<Rightarrow> - 1 | NaN \<Rightarrow> 0)"

definition inf_of :: "real \<Rightarrow> fl" where
  "inf_of s = (if 0 < s then PInf else if s < 0 then NInf else NaN)"

definition fl_neg :: "fl \<Rightarrow> fl" where
  "fl_neg v = (case v of Fin x \<Rightarrow> Fin (- x) | PInf \<Rightarrow> NInf | NInf \<Rightarrow> PInf | NaN \<Rightarrow> NaN)"

definition fl_add :: "fl \<Rightarrow> fl \<Rightarrow> fl" where
  "fl_add a b =
     (case (a, b) of
        (NaN, _) \<Rightarrow> NaN
      | (_, NaN) \<Rightarrow> NaN
      | (Fin x, Fin y) \<Rightarrow> Fin (x + y)
      | (Fin x, i) \<Rightarrow> i
      | (i, Fin y) \<Rightarrow> i
      | (i, j) \<Rightarrow> (if i = j then i else NaN))"

definition fl_sub :: "fl \<Rightarrow> fl \<Rightarrow> fl" where
  "fl_sub a b = fl_add a (fl_neg b)"

definition fl_mul :: "fl \<Rightarrow> fl \<Rightarrow> fl" where
  "fl_mul a b =
     (case (a, b) of
        (NaN, _) \<Rightarrow> NaN
      | (_, NaN) \<Rightarrow> NaN
      | (Fin x, Fin y) \<Rightarrow> Fin (x * y)
      | _ \<Rightarrow> inf_of (fl_sign a * fl_sign b))"

definition fl_div :: "fl \<Rightarrow> fl \<Rightarrow> fl" where
  "fl_div a b =
     (case (a, b) of
        (NaN, _) \<Rightarrow> NaN
      | (_, NaN) \<Rightarrow> NaN
      | (Fin x, Fin y) \<Rightarrow> (if y = 0 then inf_of (sgn x) else Fin (x / y))
      | (Fin x, _) \<Rightarrow> Fin 0
      | (_, Fin y) \<Rightarrow> inf_of (fl_sign a * (if y = 0 then 1 else sgn y))
      | _ \<Rightarrow> NaN)"

definition fl_sqrt :: "fl \<Rightarrow> fl" where
  "fl_sqrt v =
     (case v of Fin x \<Rightarrow> (if x < 0 then NaN else Fin (sqrt x)) | PInf \<Rightarrow> PInf | _ \<Rightarrow> NaN)"

definition fl_exp :: "fl \<Rightarrow> fl" where
  "fl_exp v = (case v of Fin x \<Rightarrow> Fin (exp x) | PInf \<Rightarrow> PInf | NInf \<Rightarrow> Fin 0 | NaN \<Rightarrow> NaN)"

definition fl_ln :: "fl \<Rightarrow> fl" where
  "fl_ln v =
     (case v of
        Fin x \<Rightarrow> (if x < 0 then NaN else if x = 0 then NInf else Fin (ln x))
      | PInf \<Rightarrow> PInf
      | _ \<Rightarrow> NaN)"

definition fl_cos :: "fl \<Rightarrow> fl" where
  "fl_cos v = (case v of Fin x \<Rightarrow> Fin (cos x) | _ \<Rightarrow> NaN)"

definition fl_sin :: "fl \<Rightarrow> fl" where
  "fl_sin v = (case v of Fin x \<Rightarrow> Fin (sin x) | _ \<Rightarrow> NaN)"

text \<open>Comparisons: every comparison with a NaN is false.\<close>

definition fl_lt :: "fl \<Rightarrow> fl \<Rightarrow> bool" where
  "fl_lt a b =
     (case (a, b) of
        (NaN, _) \<Rightarrow> False
      | (_, NaN) \<Rightarrow> False
      | (Fin x, Fin y) \<Rightarrow> x < y
      | (_, NInf) \<Rightarrow> False
      | (PInf, _) \<Rightarrow> False
      | _ \<Rightarrow> True)"

definition fl_gt :: "fl \<Rightarrow> fl \<Rightarrow> bool" where
  "fl_gt a b = fl_lt b a"

definition fl_eq :: "fl \<Rightarrow> fl \<Rightarrow> bool" where
  "fl_eq a b = (a \<noteq> NaN \<and> a = b)"

subsection \<open>The operations of the two C types\<close>

definition to_float :: "fl \<Rightarrow> fl" where
  "to_float v = rnd binary32 v"

definition to_double :: "fl \<Rightarrow> fl" where
  "to_double v = rnd binary64 v"

definition addf :: "fl \<Rightarrow> fl \<Rightarrow> fl" where "addf a b = to_float (fl_add a b)"
definition subf :: "fl \<Rightarrow> fl \<Rightarrow> fl" where "subf a b = to_float (fl_sub a b)"
definition mulf :: "fl \<Rightarrow> fl \<Rightarrow> fl" where "mulf a b = to_float (fl_mul a b)"
definition divf :: "fl \<Rightarrow> fl \<Rightarrow> fl" where "divf a b = to_float (fl_div a b)"

definition addd :: "fl \<Rightarrow> fl \<Rightarrow> fl" where "addd a b = to_double (fl_add a b)"
definition muld :: "fl \<Rightarrow> fl \<Rightarrow> fl" where "muld a b = to_double (fl_mul a b)"
definition divd :: "fl \<Rightarrow> fl \<Rightarrow> fl" where "divd a b = to_double (fl_div a b)"

definition sqrtd :: "fl \<Rightarrow> fl" where "sqrtd v = to_double (fl_sqrt v)"
definition sqrtf :: "fl \<Rightarrow> fl" where "sqrtf v = to_float (fl_sqrt v)"
definition expf :: "fl \<Rightarrow> fl" where "expf v = to_float (fl_exp v)"
definition logf :: "fl \<Rightarrow> fl" where "logf v = to_float (fl_ln v)"
definition cosf :: "fl \<Rightarrow> fl" where "cosf v = to_float (fl_cos v)"
definition sinf :: "fl \<Rightarrow> fl" where "sinf v = to_float (fl_sin v)"

text \<open>An \<^verbatim>\<open>int\<close> converts to \<^verbatim>\<open>double\<close> exactly and to \<^verbatim>\<open>float\<close> with rounding.\<close>

definition int_to_double :: "int \<Rightarrow> fl" where
  "int_to_double k = Fin (of_int k)"

definition int_to_float :: "int \<Rightarrow> fl" where
  "int_to_float k = to_float (Fin (of_int k))"

section \<open>Strings and the bucket hash\<close>

text \<open>
  A C string is a list of bytes read up to the first NUL; \<^verbatim>\<open>char\<close> is signed, as on
  x86-64. \<^verbatim>\<open>long\<close> has 64 bits and its arithmetic wraps around.
\<close>

definition TABLE_SIZE :: int where
  "TABLE_SIZE = 11"

definition NUL :: char where
  "NUL = CHR 0x00"

definition char_int :: "char \<Rightarrow> int" where
  "char_int c = (let n = of_char c in if 128 \<le> n then n - 256 else n)"

definition toupper :: "char \<Rightarrow> char" where
  "toupper c =
     (if of_char (CHR ''a'') \<le> (of_char c :: nat) \<and> (of_char c :: nat) \<le> of_char (CHR ''z'')
      then char_of (of_char c - (32::nat)) else c)"

fun hash_loop :: "string \<Rightarrow> 64 word \<Rightarrow> 64 word" where
  "hash_loop [] tot = tot"
| "hash_loop (c # cs) tot =
     (if c = NUL then tot
      else
        let upperchar = toupper c;
            charint = char_int upperchar - char_int (CHR ''A'');
            charint = (if charint = 0 then 3 else charint)
        in hash_loop cs (tot * 33 + word_of_int charint))"

definition hash :: "string \<Rightarrow> int" where
  "hash type =
     (let tot = hash_loop type 5381;
          index = sint tot smod TABLE_SIZE;
          index = (if index < 0 then index * - 1 else index)
      in index)"

section \<open>The return store\<close>

text \<open>
  \<^verbatim>\<open>Portfolio\<close> and \<^verbatim>\<open>RawData\<close> as records. The \<^verbatim>\<open>returns\<close> array is the list of the
  \<^verbatim>\<open>day_count\<close> values written so far; \<^verbatim>\<open>capacity\<close> is kept beside it. The field
  \<^verbatim>\<open>mean\<close> is called \<open>mean_val\<close> here, \<^verbatim>\<open>type\<close> and \<^verbatim>\<open>value\<close> of \<^verbatim>\<open>RawData\<close> are
  \<open>raw_type\<close> and \<open>raw_value\<close>.
\<close>

record Portfolio =
  type_name :: string
  returns :: "fl list"
  day_count :: int
  capacity :: int
  mean_val :: fl
  std_dev :: fl
  worst_case :: fl
  worst_case_rieman :: fl

record RawData =
  raw_type :: string
  raw_value :: fl

text \<open>
  What the program takes from outside: the C library's \<^verbatim>\<open>atof\<close>, the lines that
  \<^verbatim>\<open>fgets\<close> yields for a file name (\<open>None\<close> when \<^verbatim>\<open>fopen\<close> fails), the results of the
  successive \<^verbatim>\<open>rand()\<close> calls with \<^verbatim>\<open>RAND_MAX\<close>, and whether an allocation of a given
  number of bytes succeeds.
\<close>

record env =
  atof :: "string \<Rightarrow> fl"
  fopen :: "string \<Rightarrow> string list option"
  rand :: "nat \<Rightarrow> int"
  RAND_MAX :: int
  can_alloc :: "nat \<Rightarrow> bool"

text \<open>
  How a run stops: \<open>Exit c\<close> is \<^verbatim>\<open>return c\<close> from \<^verbatim>\<open>main\<close>; \<open>Crash\<close> stands for the
  undefined behaviour of a \<^verbatim>\<open>strcpy\<close> past a 20-byte buffer or of a NULL sample array.
\<close>

datatype stop = Exit int | Crash

definition sizeof_float :: nat where
  "sizeof_float = 4"

definition sizeof_Portfolio :: nat where
  "sizeof_Portfolio = 56"

definition cstr :: "string \<Rightarrow> string" where
  "cstr s = takeWhile (\<lambda>c. c \<noteq> NUL) s"

text \<open>
  \<^verbatim>\<open>strtok(s, ",")\<close>: skip the leading commas; no token if nothing is left; otherwise the
  token runs to the next comma, and the scan resumes behind that comma.
\<close>

definition strtok :: "string \<Rightarrow> (string \<times> string) option" where
  "strtok s =
     (let s1 = dropWhile (\<lambda>c. c = CHR '','') s
      in if s1 = [] then None
         else Some (takeWhile (\<lambda>c. c \<noteq> CHR '','') s1, drop 1 (dropWhile (\<lambda>c. c \<noteq> CHR '','') s1)))"

definition is_eol :: "char \<Rightarrow> bool" where
  "is_eol c = (c = CHR 0x0D \<or> c = CHR 0x0A)"

definition load :: "env \<Rightarrow> string \<Rightarrow> RawData \<Rightarrow> stop + RawData" where
  "load E line data =
     (case strtok (cstr line) of
        None \<Rightarrow> Inr data
      | Some (tok, rest) \<Rightarrow>
          let type = takeWhile (\<lambda>c. \<not> is_eol c) tok
          in (case strtok rest of
                None \<Rightarrow> Inr data
              | Some (return_str, _) \<Rightarrow>
                  if 20 \<le> length type then Inl Crash
                  else Inr \<lparr>raw_type = type, raw_value = to_float (atof E return_str)\<rparr>))"

definition create_bucket :: "env \<Rightarrow> string \<Rightarrow> Portfolio option" where
  "create_bucket E type =
     (if \<not> can_alloc E sizeof_Portfolio then None
      else if \<not> can_alloc E (sizeof_float * 50) then None
      else Some \<lparr>type_name = type, returns = [], day_count = 0, capacity = 50,
                  mean_val = Fin 0, std_dev = Fin 0, worst_case = Fin 0,
                  worst_case_rieman = Fin 0\<rparr>)"

text \<open>\<^verbatim>\<open>int\<close> arithmetic on 32 bits, wrapping around.\<close>

definition wrap32 :: "int \<Rightarrow> int" where
  "wrap32 k = (k + 2 ^ 31) mod 2 ^ 32 - 2 ^ 31"

text \<open>
  The resizing step of the ingestion loop. The byte count is converted to \<^verbatim>\<open>size_t\<close>, so
  a capacity that has wrapped to a negative number asks for more than any allocation
  gives.
\<close>

definition grow :: "env \<Rightarrow> Portfolio \<Rightarrow> Portfolio option" where
  "grow E b =
     (if capacity b \<le> day_count b then
        let new_cap = wrap32 (capacity b * 2)
        in if new_cap < 0 \<or> \<not> can_alloc E (nat new_cap * sizeof_float) then None
           else Some (b\<lparr>capacity := new_cap\<rparr>)
      else Some b)"

text \<open>
  Phase 2 of \<^verbatim>\<open>main\<close>: one iteration per line. \<open>current_entry\<close> lives across the
  iterations; a line that \<^verbatim>\<open>load\<close> gives up on leaves it as it was, and the loop body
  stores it again. The result is the table, with the reason when the loop returned early.
\<close>

fun ingest :: "env \<Rightarrow> string list \<Rightarrow> RawData \<Rightarrow> Portfolio option list
    \<Rightarrow> stop option \<times> Portfolio option list" where
  "ingest E [] current_entry buckets = (None, buckets)"
| "ingest E (buffer # rest) current_entry buckets =
     (case load E buffer current_entry of
        Inl e \<Rightarrow> (Some e, buckets)
      | Inr current_entry \<Rightarrow>
          let index = nat (hash (raw_type current_entry))
          in (case (case buckets ! index of
                      None \<Rightarrow> create_bucket E (raw_type current_entry)
                    | Some b \<Rightarrow> Some b) of
                None \<Rightarrow> (Some (Exit 1), buckets)
              | Some b \<Rightarrow>
                  (case grow E b of
                     None \<Rightarrow> (Some (Exit 1), buckets[index := Some b])
                   | Some b \<Rightarrow>
                       ingest E rest current_entry
                         (buckets[index := Some (b\<lparr>returns := returns b @ [raw_value current_entry],
                                                   day_count := day_count b + 1\<rparr>)]))))"

section \<open>Moment estimator\<close>

function mean_loop :: "fl list \<Rightarrow> int \<Rightarrow> int \<Rightarrow> fl \<Rightarrow> fl" where
  "mean_loop data cnt i total_value =
     (if i < cnt then mean_loop data cnt (i + 1) (addd total_value (data ! nat i))
      else total_value)"
  by pat_completeness auto
termination
  by (relation "measure (\<lambda>(data, cnt, i, total_value). nat (cnt - i))") auto

declare mean_loop.simps [simp del]

definition mean :: "fl list \<Rightarrow> int \<Rightarrow> fl" where
  "mean data cnt =
     (if cnt = 0 then Fin 0
      else
        let total_value = mean_loop data cnt 0 (Fin 0)
        in to_float (divd total_value (int_to_double cnt)))"

function stand_dev_loop :: "fl list \<Rightarrow> int \<Rightarrow> fl \<Rightarrow> int \<Rightarrow> fl \<Rightarrow> fl" where
  "stand_dev_loop data cnt mean' i total_value =
     (if i < cnt
      then stand_dev_loop data cnt mean' (i + 1)
             (addd total_value (mulf (subf (data ! nat i) mean') (subf (data ! nat i) mean')))
      else total_value)"
  by pat_completeness auto
termination
  by (relation "measure (\<lambda>(data, cnt, mean', i, total_value). nat (cnt - i))") auto

declare stand_dev_loop.simps [simp del]

definition stand_dev :: "fl list \<Rightarrow> int \<Rightarrow> fl \<Rightarrow> fl" where
  "stand_dev data cnt mean' =
     (if cnt < 2 then Fin 0
      else
        let total_value = stand_dev_loop data cnt mean' 0 (Fin 0)
        in to_float (sqrtd (divd total_value (int_to_double (cnt - 1)))))"

text \<open>
  The two accumulations written as folds over the series, for stating what the loops
  compute: the sum in \<^verbatim>\<open>double\<close>, and the sum in \<^verbatim>\<open>double\<close> of the squared \<^verbatim>\<open>float\<close>
  deviations from a given mean.
\<close>

definition sum_sq_dev :: "fl list \<Rightarrow> fl \<Rightarrow> fl" where
  "sum_sq_dev data m = foldl (\<lambda>t x. addd t (mulf (subf x m) (subf x m))) (Fin 0) data"

definition sum_double :: "fl list \<Rightarrow> fl" where
  "sum_double data = foldl addd (Fin 0) data"


section \<open>Synthetic sampler\<close>

definition PI :: fl where
  "PI = to_double (Fin 3.1415927)"

definition INV_SQRT_2PI :: fl where
  "INV_SQRT_2PI = divf (Fin 1) (sqrtf (to_float (muld PI (Fin 2))))"

definition uniform :: "env \<Rightarrow> nat \<Rightarrow> fl" where
  "uniform E n =
     to_float (divd (addd (int_to_double (rand E n)) (Fin 1))
                    (addd (int_to_double (RAND_MAX E)) (Fin 1)))"

function synth_loop :: "env \<Rightarrow> fl \<Rightarrow> fl \<Rightarrow> int \<Rightarrow> nat \<Rightarrow> fl list \<Rightarrow> fl list \<times> nat" where
  "synth_loop E mean' deviation i n generated_returns =
     (if i < 10000 - 1 then
        let u1 = uniform E n;
            u2 = uniform E (n + 1);
            gravity = sqrtf (mulf (int_to_float (- 2)) (logf u1));
            transform_u1 =
              addf (mulf (mulf gravity (cosf (to_float (muld (muld PI (Fin 2)) u2)))) deviation) mean';
            transform_u2 =
              addf (mulf (mulf gravity (sinf (to_float (muld (muld PI (Fin 2)) u2)))) deviation) mean'
        in synth_loop E mean' deviation (i + 2) (n + 2)
             (generated_returns[nat i := transform_u1, nat (i + 1) := transform_u2])
      else (generated_returns, n))"
  by pat_completeness auto
termination
  by (relation "measure (\<lambda>(E, mean', deviation, i, n, g). nat (10000 - i))") auto

declare synth_loop.simps [simp del]

text \<open>
  The sample array and the number of \<^verbatim>\<open>rand()\<close> calls made so far. The fresh array is
  filled with zeros here; the loop overwrites each of its 10000 slots.
\<close>

definition synth_data_generator :: "env \<Rightarrow> fl \<Rightarrow> fl \<Rightarrow> nat \<Rightarrow> fl list option \<times> nat" where
  "synth_data_generator E mean' deviation n =
     (if \<not> can_alloc E (sizeof_float * 10000) then (None, n)
      else
        let (generated_returns, n') = synth_loop E mean' deviation 0 n (replicate 10000 (Fin 0))
        in (Some generated_returns, n'))"

section \<open>Monte Carlo tail estimator\<close>

definition compare :: "fl \<Rightarrow> fl \<Rightarrow> int" where
  "compare fa fb = (if fl_lt fa fb then - 1 else if fl_gt fa fb then 1 else 1)"

text \<open>
  The C library's \<^verbatim>\<open>qsort\<close> is not part of the program; it stands here as a sort by
  insertion that places an element before the first one the comparator reports it smaller
  than.
\<close>

fun qsort_insert :: "(fl \<Rightarrow> fl \<Rightarrow> int) \<Rightarrow> fl \<Rightarrow> fl list \<Rightarrow> fl list" where
  "qsort_insert cmp x [] = [x]"
| "qsort_insert cmp x (y # ys) = (if cmp x y < 0 then x # y # ys else y # qsort_insert cmp x ys)"

definition qsort :: "(fl \<Rightarrow> fl \<Rightarrow> int) \<Rightarrow> fl list \<Rightarrow> fl list" where
  "qsort cmp xs = foldr (qsort_insert cmp) xs []"

definition analyze :: "fl list \<Rightarrow> Portfolio \<Rightarrow> Portfolio" where
  "analyze data bucket =
     (let data = qsort compare (take 10000 data) @ drop 10000 data;
          worst_case = data ! 499
      in bucket\<lparr>worst_case := worst_case\<rparr>)"

section \<open>Analytic tail estimator\<close>

definition target_mass :: fl where
  "target_mass = to_double (Fin 0.05)"

definition height_at :: "fl \<Rightarrow> fl \<Rightarrow> fl \<Rightarrow> fl" where
  "height_at mean' deviation x =
     (let z = divf (subf x mean') deviation
      in mulf (divf INV_SQRT_2PI deviation) (expf (to_float (muld (Fin (- 0.5)) (mulf z z)))))"

text \<open>
  The \<^verbatim>\<open>for\<close> loop of \<^verbatim>\<open>rieman\<close>: test, body, increment. It has no other exit than its
  test, so it is a partial function: \<open>None\<close> is a loop that never ends.
\<close>

partial_function (option) rieman_loop :: "fl \<Rightarrow> fl \<Rightarrow> fl \<Rightarrow> fl \<Rightarrow> fl \<Rightarrow> fl option" where
  "rieman_loop mean' deviation step_size x bucket =
     (if fl_lt bucket target_mass then
        let height = height_at mean' deviation x;
            bucket = addf bucket (mulf height step_size)
        in rieman_loop mean' deviation step_size (addf x step_size) bucket
      else Some x)"

definition rieman :: "fl list \<Rightarrow> fl \<Rightarrow> fl \<Rightarrow> Portfolio \<Rightarrow> Portfolio option" where
  "rieman data mean' deviation adress =
     (let bucket = Fin 0;
          start = subf mean' (mulf (int_to_float 5) deviation);
          step_size = to_float (to_double (Fin 0.0001))
      in case rieman_loop mean' deviation step_size start bucket of
           None \<Rightarrow> None
         | Some x \<Rightarrow> Some (adress\<lparr>worst_case_rieman := x\<rparr>))"

text \<open>
  The states of the loop, for stating what it computes: \<open>rieman_step\<close> is one pass through
  body and increment, \<open>rieman_x n\<close> and \<open>rieman_mass n\<close> are \<^verbatim>\<open>x\<close> and \<^verbatim>\<open>bucket\<close> after
  \<open>n\<close> passes.
\<close>

definition rieman_step :: "fl \<Rightarrow> fl \<Rightarrow> fl \<Rightarrow> fl \<times> fl \<Rightarrow> fl \<times> fl" where
  "rieman_step mean' deviation step_size s =
     (addf (fst s) step_size, addf (snd s) (mulf (height_at mean' deviation (fst s)) step_size))"

definition rieman_start :: "fl \<Rightarrow> fl \<Rightarrow> fl" where
  "rieman_start mean' deviation = subf mean' (mulf (int_to_float 5) deviation)"

definition rieman_step_size :: fl where
  "rieman_step_size = to_float (to_double (Fin 0.0001))"

definition rieman_state :: "fl \<Rightarrow> fl \<Rightarrow> nat \<Rightarrow> fl \<times> fl" where
  "rieman_state mean' deviation n =
     (rieman_step mean' deviation rieman_step_size ^^ n) (rieman_start mean' deviation, Fin 0)"

definition rieman_x :: "fl \<Rightarrow> fl \<Rightarrow> nat \<Rightarrow> fl" where
  "rieman_x mean' deviation n = fst (rieman_state mean' deviation n)"

definition rieman_mass :: "fl \<Rightarrow> fl \<Rightarrow> nat \<Rightarrow> fl" where
  "rieman_mass mean' deviation n = snd (rieman_state mean' deviation n)"


section \<open>Export and the main pipeline\<close>

text \<open>The line that \<^verbatim>\<open>printf\<close> writes, as its five fields before formatting.\<close>

record profile_line =
  out_type :: string
  out_mean :: fl
  out_stability :: fl
  out_min_percentage :: fl
  out_max_percentage :: fl

definition send2python :: "Portfolio option \<Rightarrow> string \<Rightarrow> int \<times> profile_line option" where
  "send2python ptr user_query =
     (case ptr of
        None \<Rightarrow> (1, None)
      | Some p \<Rightarrow>
          let (min, max) =
                (if fl_lt (worst_case p) (worst_case_rieman p)
                 then (worst_case p, worst_case_rieman p)
                 else (worst_case_rieman p, worst_case p));
              floor = Fin 0;
              cap = int_to_float 1;
              min_percentage = mulf (divf (subf min floor) (subf cap floor)) (int_to_float 100);
              max_percentage = mulf (divf (subf max floor) (subf cap floor)) (int_to_float 100);
              score = std_dev p;
              stability =
                subf (int_to_float 100)
                  (mulf (divf (subf score floor) (subf cap floor)) (int_to_float 100))
          in (0, Some \<lparr>out_type = type_name p, out_mean = mean_val p, out_stability = stability,
                       out_min_percentage = min_percentage,
                       out_max_percentage = max_percentage\<rparr>))"

text \<open>
  What a run leaves behind: how it stopped, the line written to stdout if any, the bucket
  table, and how many times \<^verbatim>\<open>rand()\<close> was called.
\<close>

record result =
  status :: stop
  printed :: "profile_line option"
  table :: "Portfolio option list"
  rand_calls :: nat

definition empty_table :: "Portfolio option list" where
  "empty_table = replicate (nat TABLE_SIZE) None"

text \<open>
  \<^verbatim>\<open>main\<close>. \<open>argv\<close> is the whole argument vector, \<open>stack_entry\<close> is what the
  uninitialised \<^verbatim>\<open>current_entry\<close> holds when the loop starts. The result is \<open>None\<close> when
  the run never returns.
\<close>

definition main :: "env \<Rightarrow> string list \<Rightarrow> RawData \<Rightarrow> result option" where
  "main E argv stack_entry =
     (if int (length argv) \<noteq> 3 then
        Some \<lparr>status = Exit 1, printed = None, table = empty_table, rand_calls = 0\<rparr>
      else case fopen E (argv ! 1) of
        None \<Rightarrow> Some \<lparr>status = Exit 1, printed = None, table = empty_table, rand_calls = 0\<rparr>
      | Some input_data \<Rightarrow>
         (case ingest E input_data stack_entry empty_table of
            (Some e, buckets) \<Rightarrow>
              Some \<lparr>status = e, printed = None, table = buckets, rand_calls = 0\<rparr>
          | (None, buckets) \<Rightarrow>
             let index = nat (hash (argv ! 2))
             in (case buckets ! index of
                   None \<Rightarrow>
                     Some \<lparr>status = Exit 3, printed = None, table = buckets, rand_calls = 0\<rparr>
                 | Some b \<Rightarrow>
                    let average = mean (returns b) (day_count b);
                        b = b\<lparr>mean_val := average\<rparr>;
                        sdev = stand_dev (returns b) (day_count b) average
                    in if fl_eq sdev (Fin 0) then
                         Some \<lparr>status = Exit 2, printed = None,
                               table = buckets[index := Some b], rand_calls = 0\<rparr>
                       else
                         let b = b\<lparr>std_dev := sdev\<rparr>
                         in (case synth_data_generator E average sdev 0 of
                               (None, n) \<Rightarrow>
                                 Some \<lparr>status = Crash, printed = None,
                                       table = buckets[index := Some b], rand_calls = n\<rparr>
                             | (Some temp_data, n) \<Rightarrow>
                                 let b = analyze temp_data b
                                 in (case rieman (returns b) average sdev b of
                                       None \<Rightarrow> None
                                     | Some b \<Rightarrow>
                                         let (test, line) = send2python (Some b) (argv ! 2)
                                         in Some \<lparr>status = (if test = 1 then Exit 3 else Exit 0),
                                                   printed = line,
                                                   table = buckets[index := Some b],
                                                   rand_calls = n\<rparr>)))))"

section \<open>Notions used to state the properties\<close>

text \<open>
  Labels: \<open>strip_eol\<close> removes the trailing line terminators, and two labels differ only in
  letter case and trailing line terminators when their \<open>norm_label\<close> is the same.
  \<open>clean_label\<close> is what \<^verbatim>\<open>load\<close> keeps of a label: the part before its first line
  terminator. A well-formed label is not empty, has no comma and no NUL, and fits the
  20-byte \<^verbatim>\<open>type\<close> field once it is cut. \<open>series_at\<close> reads the series stored at a bucket
  index, and \<open>room_for_two\<close> says that the capacity of a bucket, if it is there, can be
  doubled twice within an \<^verbatim>\<open>int\<close>.
\<close>

definition strip_eol :: "string \<Rightarrow> string" where
  "strip_eol s = rev (dropWhile is_eol (rev s))"

definition norm_label :: "string \<Rightarrow> string" where
  "norm_label s = map toupper (strip_eol s)"

definition clean_label :: "string \<Rightarrow> string" where
  "clean_label s = takeWhile (\<lambda>c. \<not> is_eol c) s"

definition wf_label :: "string \<Rightarrow> bool" where
  "wf_label s \<longleftrightarrow> s \<noteq> [] \<and> CHR '','' \<notin> set s \<and> NUL \<notin> set s \<and> length (clean_label s) < 20"

definition room_for_two :: "Portfolio option \<Rightarrow> bool" where
  "room_for_two p = (case p of None \<Rightarrow> True | Some b \<Rightarrow> 0 \<le> capacity b \<and> capacity b < 2 ^ 29)"

definition series_at :: "Portfolio option list \<Rightarrow> nat \<Rightarrow> fl list" where
  "series_at buckets i = (case buckets ! i of None \<Rightarrow> [] | Some p \<Rightarrow> returns p)"

text \<open>
  Order: \<open>fl_le\<close> is \<^verbatim>\<open><=\<close> on the values; a list is the ascending arrangement of a sample
  when it is a rearrangement of it that is sorted by \<open>fl_le\<close>.
\<close>

definition fl_le :: "fl \<Rightarrow> fl \<Rightarrow> bool" where
  "fl_le a b \<longleftrightarrow> fl_lt a b \<or> fl_eq a b"

definition ascending :: "fl list \<Rightarrow> bool" where
  "ascending xs = sorted_wrt fl_le xs"

text \<open>Values that are not negative and not a NaN: plus infinity and the finite values from 0 on.\<close>

definition nonneg_fl :: "fl \<Rightarrow> bool" where
  "nonneg_fl v = (case v of Fin w \<Rightarrow> 0 \<le> w | PInf \<Rightarrow> True | _ \<Rightarrow> False)"

text \<open>
  The normal density of the specification,
  \<open>\<phi>(x) = (1 / (deviation \<cdot> sqrt(2\<pi>))) \<cdot> exp(-0.5 \<cdot> ((x - mean) / deviation)\<^sup>2)\<close>, over the reals.
\<close>

definition normal_density :: "real \<Rightarrow> real \<Rightarrow> real \<Rightarrow> real" where
  "normal_density mean' deviation x
     = 1 / (deviation * sqrt (2 * pi)) * exp (- 0.5 * ((x - mean') / deviation)\<^sup>2)"


section \<open>Representable values and sample inputs\<close>

text \<open>
  The values of a format: an integer of at most \<open>prec\<close> bits times a power of two that is
  not below the format's smallest spacing.
\<close>

definition representable :: "format \<Rightarrow> real \<Rightarrow> bool" where
  "representable F x \<longleftrightarrow>
     (\<exists>m e. x = of_int m * 2 powi e \<and> \<bar>m\<bar> < 2 ^ prec F \<and> emin F - int (prec F) + 1 \<le> e)"

text \<open>Two deviations used as concrete inputs below; both are binary32 values.\<close>

definition huge_deviation :: real where
  "huge_deviation = 2 ^ 126"

definition tiny_deviation :: real where
  "tiny_deviation = 1 / 2 ^ 40"


text \<open>
  The largest binary32 value below 2, and two counts: up to \<open>exact_count\<close> copies of it
  every partial sum of the \<^verbatim>\<open>double\<close> accumulator is exact, and \<open>many\<close> copies still fit
  an \<^verbatim>\<open>int\<close> count.
\<close>

definition near_two :: real where
  "near_two = 2 - 1 / 2 ^ 23"

definition many :: nat where
  "many = 2 ^ 30 + 2 ^ 15"

definition exact_count :: nat where
  "exact_count = 2 ^ 29 + 32"


text \<open>
  An environment for running the model on small files: every allocation succeeds, \<^verbatim>\<open>atof\<close>
  is replaced by a reader of one leading decimal digit, and three files exist.
\<close>

definition test_atof :: "string \<Rightarrow> fl" where
  "test_atof s =
     (case s of
        [] \<Rightarrow> Fin 0
      | c # _ \<Rightarrow>
          let d = (of_char c :: nat)
          in if 48 \<le> d \<and> d \<le> 57 then Fin (real (d - 48)) else Fin 0)"

definition test_files :: "string \<Rightarrow> string list option" where
  "test_files name =
     (if name = ''collide.csv'' then Some [''Stocks,1'', ''Bonds,2'']
      else if name = ''single.csv'' then Some [''Stocks,1'']
      else if name = ''stocks.csv''
        then Some [''Stocks,1'', ''stocks'' @ [CHR 0x0D, CHR 0x0A] @ '',2'', ''STOCKS,3'']
      else None)"

definition test_env :: env where
  "test_env = \<lparr>atof = test_atof, fopen = test_files, rand = (\<lambda>n. 0), RAND_MAX = 2147483647,
                can_alloc = (\<lambda>n. True)\<rparr>"

definition stack_garbage :: RawData where
  "stack_garbage = \<lparr>raw_type = [], raw_value = Fin 0\<rparr>"

definition stocks_bucket :: "fl list \<Rightarrow> Portfolio" where
  "stocks_bucket series =
     \<lparr>type_name = ''Stocks'', returns = series, day_count = int (length series), capacity = 50,
      mean_val = Fin 0, std_dev = Fin 0, worst_case = Fin 0, worst_case_rieman = Fin 0\<rparr>"

text \<open>Two labels of 20 letters that differ only in letter case.\<close>

definition long_label :: string where
  "long_label = replicate 20 (CHR ''a'')"

definition LONG_LABEL :: string where
  "LONG_LABEL = replicate 20 (CHR ''A'')"

text \<open>The sample \<open>0, 1, ..., 9999\<close>, already in ascending order.\<close>

definition asc_sample :: "fl list" where
  "asc_sample = map (\<lambda>i. Fin (real i)) [0..<10000]"


section \<open>Properties\<close>

subsection \<open>Rounding\<close>

lemma rne_cases: "rne y = \<lfloor>y\<rfloor> \<or> rne y = \<lfloor>y\<rfloor> + 1"
  by (simp add: rne_def Let_def)

lemma rne_close: "\<bar>of_int (rne y) - y\<bar> \<le> 1 / 2"
  unfolding rne_def Let_def by (auto simp: abs_le_iff)

lemma rne_of_int: "rne (of_int k) = k"
  by (simp add: rne_def)

lemma rne_mono: assumes "y1 \<le> y2" shows "rne y1 \<le> rne y2"
proof (rule ccontr)
  assume "\<not> rne y1 \<le> rne y2"
  then have "rne y2 + 1 \<le> rne y1" by simp
  then have h: "real_of_int (rne y2) + 1 \<le> real_of_int (rne y1)" by linarith
  have "y1 = y2" using rne_close[of y1] rne_close[of y2] h assms by (simp add: abs_le_iff) 
  then show False using \<open>\<not> rne y1 \<le> rne y2\<close> by simp
qed

lemma rne_minus: "rne (- y) = - rne y"
proof (cases "y \<in> \<int>")
  case True
  then obtain k where "y = of_int k" by (auto elim: Ints_cases)
  then show ?thesis using rne_of_int[of "-k"] rne_of_int[of k] by simp
next
  case False
  then have "of_int \<lfloor>y\<rfloor> \<noteq> y"
    by (metis Ints_of_int)
  then have fr: "of_int \<lfloor>y\<rfloor> < y"
    using of_int_floor_le[of y] by (simp add: less_le)
  have fl: "\<lfloor>- y\<rfloor> = - \<lfloor>y\<rfloor> - 1"
  proof -
    have a: "y < of_int \<lfloor>y\<rfloor> + 1"
      by linarith
    have "of_int (- \<lfloor>y\<rfloor> - 1) \<le> - y \<and> - y < of_int (- \<lfloor>y\<rfloor> - 1) + 1"
      using fr a by (simp only: of_int_diff of_int_minus of_int_1) linarith
    then show ?thesis
      by (simp only: floor_eq_iff)
  qed
  show ?thesis unfolding rne_def Let_def fl using fr by (auto simp: ) 
qed

lemma two_powr_int: "(2::real) powr real_of_int k = 2 powi k"
  by (simp add: powr_real_of_int')

lemma floor_log2_iff: assumes "x \<noteq> 0"
  shows "\<lfloor>log 2 \<bar>x\<bar>\<rfloor> = e \<longleftrightarrow> 2 powi e \<le> \<bar>x\<bar> \<and> \<bar>x\<bar> < 2 powi (e + 1)"
  using floor_log_eq_powr_iff[of "\<bar>x\<bar>" 2 e] assms
  unfolding two_powr_int by simp

lemma ilog_bounds: assumes "x \<noteq> 0"
  shows "2 powi \<lfloor>log 2 \<bar>x\<bar>\<rfloor> \<le> \<bar>x\<bar>" "\<bar>x\<bar> < 2 powi (\<lfloor>log 2 \<bar>x\<bar>\<rfloor> + 1)"
  using floor_log2_iff[OF assms, of "\<lfloor>log 2 \<bar>x\<bar>\<rfloor>"] by simp_all

lemma quantum_pos: "0 < quantum F x"
  by (simp add: quantum_def)

lemma round_fin_minus: "round_fin F (- x) = - round_fin F x"
  by (simp add: round_fin_def quantum_def rne_minus)

lemma round_fin_0: "round_fin F 0 = 0"
  by (simp add: round_fin_def)

lemma round_fin_nonneg: assumes "0 \<le> x" shows "0 \<le> round_fin F x"
proof -
  have "0 \<le> x / quantum F x" using assms quantum_pos[of F x] by simp
  then have "rne 0 \<le> rne (x / quantum F x)" by (rule rne_mono)
  then have "0 \<le> rne (x / quantum F x)" using rne_of_int[of 0] by simp
  then show ?thesis using quantum_pos[of F x] by (simp add: round_fin_def)
qed

text \<open>exponent used by the grid\<close>
lemma pow2_mono: "a \<le> b \<Longrightarrow> (2::real) powi a \<le> 2 powi b"
  by (rule power_int_increasing) simp_all

lemma pow2_strict_mono: "a < b \<Longrightarrow> (2::real) powi a < 2 powi b"
  by (rule power_int_strict_increasing) simp_all

lemma pow2_add: "(2::real) powi (a + b) = 2 powi a * 2 powi b"
  by (simp add: power_int_add)

lemma pow2_diff: "(2::real) powi (a - b) = 2 powi a / 2 powi b"
  by (simp add: power_int_diff)

text \<open>the rounded value of a positive x lies in its binade\<close>
lemma round_fin_binade:
  assumes x: "0 < x" and p: "0 < prec F"
  defines "e \<equiv> max (emin F) \<lfloor>log 2 \<bar>x\<bar>\<rfloor>"
  shows "round_fin F x \<le> 2 powi (e + 1)"
    and "emin F \<le> \<lfloor>log 2 \<bar>x\<bar>\<rfloor> \<Longrightarrow> 2 powi e \<le> round_fin F x"
proof -
  have q: "quantum F x = 2 powi (e - int (prec F) + 1)" by (simp add: quantum_def e_def)
  have xne: "x \<noteq> 0" using x by simp
  have up: "x < 2 powi (e + 1)"
  proof -
    have "\<bar>x\<bar> < 2 powi (\<lfloor>log 2 \<bar>x\<bar>\<rfloor> + 1)" using ilog_bounds(2)[OF xne] .
    also have "\<dots> \<le> 2 powi (e + 1)" by (rule pow2_mono) (simp add: e_def)
    finally show ?thesis using x by simp
  qed
  have "x / quantum F x \<le> 2 powi (e + 1) / quantum F x"
    using up quantum_pos[of F x] by (simp add: divide_le_cancel)
  also have "\<dots> = 2 powi int (prec F)" unfolding q by (simp add: power_int_diff power_int_add field_simps)
  also have "\<dots> = of_int (2 ^ prec F)" by simp
  finally have "rne (x / quantum F x) \<le> rne (of_int (2 ^ prec F))" by (rule rne_mono)
  then have "rne (x / quantum F x) \<le> 2 ^ prec F" unfolding rne_of_int .
  then have "real_of_int (rne (x / quantum F x)) \<le> real_of_int (2 ^ prec F)"
    by (simp only: of_int_le_iff)
  then have "real_of_int (rne (x / quantum F x)) \<le> 2 powi int (prec F)"
    by simp
  then have "round_fin F x \<le> 2 powi int (prec F) * quantum F x"
    using xne quantum_pos[of F x] by (simp add: round_fin_def)
  also have "\<dots> = 2 powi (e + 1)" unfolding q by (simp add: power_int_diff power_int_add field_simps)
  finally show "round_fin F x \<le> 2 powi (e + 1)" .
next
  assume n: "emin F \<le> \<lfloor>log 2 \<bar>x\<bar>\<rfloor>"
  have q: "quantum F x = 2 powi (e - int (prec F) + 1)" by (simp add: quantum_def e_def)
  have xne: "x \<noteq> 0" using x by simp
  have ee: "e = \<lfloor>log 2 \<bar>x\<bar>\<rfloor>" using n by (simp add: e_def)
  have lo: "2 powi e \<le> x" using ilog_bounds(1)[OF xne] x ee by simp
  obtain k where k: "prec F = Suc k" using p by (cases "prec F") auto
  have "2 powi e / quantum F x = 2 powi (int k)"
    unfolding q k by (simp add: power_int_diff power_int_add field_simps)
  also have "\<dots> = of_int (2 ^ k)" by simp
  finally have eq: "2 powi e / quantum F x = of_int (2 ^ k)" .
  have "2 powi e / quantum F x \<le> x / quantum F x"
    by (rule divide_right_mono) (use lo quantum_pos[of F x] in simp_all)
  then have "of_int (2 ^ k) \<le> x / quantum F x"
    unfolding eq .
  then have "rne (of_int (2 ^ k)) \<le> rne (x / quantum F x)" by (rule rne_mono)
  then have "2 ^ k \<le> rne (x / quantum F x)" unfolding rne_of_int .
  then have "real_of_int (2 ^ k) \<le> real_of_int (rne (x / quantum F x))"
    by (simp only: of_int_le_iff)
  then have "2 powi int k \<le> real_of_int (rne (x / quantum F x))"
    by simp
  then have "2 powi int k * quantum F x \<le> round_fin F x"
    using xne quantum_pos[of F x] by (simp add: round_fin_def)
  moreover have "2 powi int k * quantum F x = 2 powi e"
    unfolding q k by (simp add: power_int_diff power_int_add field_simps)
  ultimately show "2 powi e \<le> round_fin F x" by simp
qed


lemma pow2_less_D: "(2::real) powi a < 2 powi b \<Longrightarrow> a < b"
  using pow2_mono[of b a] by (cases "a < b") auto

lemma representableI:
  "x = of_int m * 2 powi e \<Longrightarrow> \<bar>m\<bar> < 2 ^ prec F \<Longrightarrow> emin F - int (prec F) + 1 \<le> e
     \<Longrightarrow> representable F x"
  unfolding representable_def by blast

lemma round_fin_representable:
  assumes "representable F x"
  shows "round_fin F x = x"
proof (cases "x = 0")
  case True
  then show ?thesis by (simp add: round_fin_def)
next
  case False
  obtain m e where x: "x = of_int m * 2 powi e" and m: "\<bar>m\<bar> < 2 ^ prec F"
    and e: "emin F - int (prec F) + 1 \<le> e"
    using assms unfolding representable_def by blast
  define E where "E = max (emin F) \<lfloor>log 2 \<bar>x\<bar>\<rfloor>"
  have q: "quantum F x = 2 powi (E - int (prec F) + 1)"
    by (simp add: quantum_def E_def)
  have "E - int (prec F) + 1 \<le> e"
  proof (cases "emin F \<le> \<lfloor>log 2 \<bar>x\<bar>\<rfloor>")
    case True
    then have EE: "E = \<lfloor>log 2 \<bar>x\<bar>\<rfloor>" by (simp add: E_def)
    have "2 powi E \<le> \<bar>x\<bar>" using ilog_bounds(1)[OF False] EE by simp
    also have "\<bar>x\<bar> = real_of_int \<bar>m\<bar> * 2 powi e" by (simp add: x abs_mult)
    also have "\<dots> < real_of_int (2 ^ prec F) * 2 powi e"
      using m by (intro mult_strict_right_mono) (simp_all only: of_int_less_iff zero_less_power_int zero_less_numeral)
    also have "\<dots> = 2 powi (int (prec F) + e)" by (simp add: power_int_add)
    finally have "E < int (prec F) + e"
      by (rule pow2_less_D)
    then show ?thesis by simp
  next
    case False
    then have "E = emin F" by (simp add: E_def)
    then show ?thesis using e by simp
  qed
  then have "e = (E - int (prec F) + 1) + int (nat (e - (E - int (prec F) + 1)))"
    by simp
  then obtain n where n: "e = (E - int (prec F) + 1) + int n" ..
  have "x = of_int m * 2 powi ((E - int (prec F) + 1) + int n)"
    using x n by simp
  also have "\<dots> = of_int (m * 2 ^ n) * 2 powi (E - int (prec F) + 1)"
    by (simp add: power_int_add)
  finally have xq0: "x = of_int (m * 2 ^ n) * 2 powi (E - int (prec F) + 1)" .
  have xq: "x = of_int (m * 2 ^ n) * quantum F x"
    by (subst q) (rule xq0)
  then have "x / quantum F x = of_int (m * 2 ^ n)"
    using quantum_pos[of F x] by (metis nonzero_mult_div_cancel_right less_irrefl)
  then have "rne (x / quantum F x) = m * 2 ^ n"
    by (simp only: rne_of_int)
  then have "round_fin F x = of_int (m * 2 ^ n) * quantum F x"
    using False by (simp add: round_fin_def)
  then show ?thesis
    using xq by simp
qed

lemma floor_log2_mono: assumes "0 < x" "x \<le> y" shows "\<lfloor>log 2 \<bar>x\<bar>\<rfloor> \<le> \<lfloor>log 2 \<bar>y\<bar>\<rfloor>"
proof -
  have "log 2 x \<le> log 2 y" using assms by simp
  then show ?thesis using assms by (simp add: floor_mono)
qed

lemma round_fin_mono_pos:
  assumes p: "0 < prec F" and x: "0 < x" and xy: "x \<le> y"
  shows "round_fin F x \<le> round_fin F y"
proof -
  define ex where "ex = max (emin F) \<lfloor>log 2 \<bar>x\<bar>\<rfloor>"
  define ey where "ey = max (emin F) \<lfloor>log 2 \<bar>y\<bar>\<rfloor>"
  have y: "0 < y" using x xy by simp
  have le: "ex \<le> ey" using floor_log2_mono[OF x xy] by (simp add: ex_def ey_def)
  show ?thesis
  proof (cases "ex = ey")
    case True
    then have q: "quantum F x = quantum F y"
      by (simp add: quantum_def ex_def ey_def)
    have "x / quantum F y \<le> y / quantum F y"
      by (rule divide_right_mono) (use xy quantum_pos[of F y] in simp_all)
    then have "rne (x / quantum F y) \<le> rne (y / quantum F y)" by (rule rne_mono)
    then have "real_of_int (rne (x / quantum F y)) * quantum F y \<le> real_of_int (rne (y / quantum F y)) * quantum F y"
      using quantum_pos[of F y] by (intro mult_right_mono) simp_all
    then show ?thesis using x y by (simp add: round_fin_def q)
  next
    case False
    then have lt: "ex + 1 \<le> ey" using le by simp
    then have "emin F \<le> \<lfloor>log 2 \<bar>y\<bar>\<rfloor>" by (simp add: ex_def ey_def) 
    then have lo: "2 powi ey \<le> round_fin F y"
      using round_fin_binade(2)[OF y p] by (simp add: ey_def)
    have "round_fin F x \<le> 2 powi (ex + 1)"
      using round_fin_binade(1)[OF x p] by (simp add: ex_def)
    also have "\<dots> \<le> 2 powi ey" using lt by (rule pow2_mono)
    finally show ?thesis using lo by simp
  qed
qed

lemma round_fin_mono:
  assumes p: "0 < prec F" and xy: "x \<le> y"
  shows "round_fin F x \<le> round_fin F y"
proof -
  consider "0 < x" | "x \<le> 0" "0 \<le> y" | "y < 0" by linarith
  then show ?thesis
  proof cases
    case 1
    then show ?thesis using round_fin_mono_pos[OF p _ xy] by simp
  next
    case 2
    have "0 \<le> round_fin F (- x)" using 2 by (intro round_fin_nonneg) simp
    then have "round_fin F x \<le> 0" by (simp add: round_fin_minus)
    also have "0 \<le> round_fin F y" using 2 by (intro round_fin_nonneg)
    finally show ?thesis .
  next
    case 3
    then have "round_fin F (- y) \<le> round_fin F (- x)"
      using xy by (intro round_fin_mono_pos[OF p]) simp_all
    then show ?thesis by (simp add: round_fin_minus)
  qed
qed

text \<open>a value between two representable bounds rounds to a finite value between them\<close>
lemma rnd_between:
  assumes p: "0 < prec F"
    and l: "representable F l" and u: "representable F u"
    and lr: "- (2 powi (emax F + 1)) < l" and ur: "u < 2 powi (emax F + 1)"
    and lx: "l \<le> x" and xu: "x \<le> u"
  shows "\<exists>y. rnd F (Fin x) = Fin y \<and> l \<le> y \<and> y \<le> u"
proof -
  have a: "l \<le> round_fin F x"
    using round_fin_mono[OF p lx] round_fin_representable[OF l] by simp
  have b: "round_fin F x \<le> u"
    using round_fin_mono[OF p xu] round_fin_representable[OF u] by simp
  have "\<bar>round_fin F x\<bar> < 2 powi (emax F + 1)"
    using a b lr ur by (simp add: abs_less_iff)
  then have "rnd F (Fin x) = Fin (round_fin F x)"
    by (simp add: rnd_def Let_def)
  then show ?thesis using a b by simp
qed

lemma rnd_exact:
  assumes "representable F x" "\<bar>x\<bar> < 2 powi (emax F + 1)"
  shows "rnd F (Fin x) = Fin x"
  using assms by (simp add: rnd_def Let_def round_fin_representable)

lemma to_float_between:
  assumes "representable binary32 l" "representable binary32 u"
    and "- (2 ^ 128) < l" "u < 2 ^ 128" "l \<le> x" "x \<le> u"
  shows "\<exists>y. to_float (Fin x) = Fin y \<and> l \<le> y \<and> y \<le> u"
  unfolding to_float_def using assms
  by (intro rnd_between) (simp_all add: binary32_def)

lemma to_double_between:
  assumes "representable binary64 l" "representable binary64 u"
    and "- (2 ^ 1024) < l" "u < 2 ^ 1024" "l \<le> x" "x \<le> u"
  shows "\<exists>y. to_double (Fin x) = Fin y \<and> l \<le> y \<and> y \<le> u"
  unfolding to_double_def using assms
  by (intro rnd_between) (simp_all add: binary64_def)

lemma repr32: "\<bar>m\<bar> < 2 ^ 24 \<Longrightarrow> - 149 \<le> e \<Longrightarrow> representable binary32 (of_int m * 2 powi e)"
  by (rule representableI[where m = m and e = e]) (simp_all add: binary32_def)

lemma repr64: "\<bar>m\<bar> < 2 ^ 53 \<Longrightarrow> - 1074 \<le> e \<Longrightarrow> representable binary64 (of_int m * 2 powi e)"
  by (rule representableI[where m = m and e = e]) (simp_all add: binary64_def)

lemma repr32_pow2: "- 149 \<le> e \<Longrightarrow> representable binary32 (2 powi e)"
  using repr32[of 1 e] by simp

lemma repr64_pow2: "- 1074 \<le> e \<Longrightarrow> representable binary64 (2 powi e)"
  using repr64[of 1 e] by simp

lemma to_float_exact:
  "representable binary32 x \<Longrightarrow> \<bar>x\<bar> < 2 ^ 128 \<Longrightarrow> to_float (Fin x) = Fin x"
  unfolding to_float_def by (rule rnd_exact) (simp_all add: binary32_def)

lemma to_double_exact:
  "representable binary64 x \<Longrightarrow> \<bar>x\<bar> < 2 ^ 1024 \<Longrightarrow> to_double (Fin x) = Fin x"
  unfolding to_double_def by (rule rnd_exact) (simp_all add: binary64_def)

lemma to_float_special: "to_float PInf = PInf" "to_float NInf = NInf" "to_float NaN = NaN"
  by (simp_all add: to_float_def rnd_def)

lemma to_double_special: "to_double PInf = PInf" "to_double NInf = NInf" "to_double NaN = NaN"
  by (simp_all add: to_double_def rnd_def)

lemma to_float_0: "to_float (Fin 0) = Fin 0"
  by (simp add: to_float_def rnd_def round_fin_def not_le)

lemma to_double_0: "to_double (Fin 0) = Fin 0"
  by (simp add: to_double_def rnd_def round_fin_def not_le)

lemma fl_Fin_simps:
  "fl_add (Fin x) (Fin y) = Fin (x + y)"
  "fl_sub (Fin x) (Fin y) = Fin (x - y)"
  "fl_mul (Fin x) (Fin y) = Fin (x * y)"
  "y \<noteq> 0 \<Longrightarrow> fl_div (Fin x) (Fin y) = Fin (x / y)"
  "0 \<le> x \<Longrightarrow> fl_sqrt (Fin x) = Fin (sqrt x)"
  "fl_exp (Fin x) = Fin (exp x)"
  "fl_lt (Fin x) (Fin y) \<longleftrightarrow> x < y"
  by (simp_all add: fl_add_def fl_sub_def fl_neg_def fl_mul_def fl_div_def fl_sqrt_def
      fl_exp_def fl_lt_def)

text \<open>bounds by powers of two\<close>
lemma to_float_pow2_between:
  assumes "- 149 \<le> i" "i \<le> j" "j \<le> 127" "2 powi i \<le> x" "x \<le> 2 powi j"
  shows "\<exists>y. to_float (Fin x) = Fin y \<and> 2 powi i \<le> y \<and> y \<le> 2 powi j"
proof (rule to_float_between)
  show "representable binary32 (2 powi i)" "representable binary32 (2 powi j)"
    using assms by (simp_all add: repr32_pow2)
  have "(0::real) < 2 powi i" by simp
  then show "- (2 ^ 128) < (2::real) powi i" by (smt (verit) zero_less_power)
  have "(2::real) powi j < 2 powi 128" using assms by (intro pow2_strict_mono) simp
  then show "(2::real) powi j < 2 ^ 128" by simp
qed (use assms in simp_all)

lemma to_double_pow2_between:
  assumes "- 1074 \<le> i" "i \<le> j" "j \<le> 1023" "2 powi i \<le> x" "x \<le> 2 powi j"
  shows "\<exists>y. to_double (Fin x) = Fin y \<and> 2 powi i \<le> y \<and> y \<le> 2 powi j"
proof (rule to_double_between)
  show "representable binary64 (2 powi i)" "representable binary64 (2 powi j)"
    using assms by (simp_all add: repr64_pow2)
  have "(0::real) < 2 powi i" by simp
  then show "- (2 ^ 1024) < (2::real) powi i" by (smt (verit) zero_less_power)
  have "(2::real) powi j < 2 powi 1024" using assms by (intro pow2_strict_mono) simp
  then show "(2::real) powi j < 2 ^ 1024" by simp
qed (use assms in simp_all)

lemma target_mass_bounds: "\<exists>t. target_mass = Fin t \<and> 1 / 32 \<le> t \<and> t \<le> 1 / 16"
  using to_double_pow2_between[of "- 5" "- 4" "0.05"] by (simp add: target_mass_def)

lemma step_size_bounds:
  "\<exists>s. to_float (to_double (Fin 0.0001)) = Fin s \<and> 1 / 16384 \<le> s \<and> s \<le> 1 / 8192"
proof -
  obtain d where d: "to_double (Fin 0.0001) = Fin d" "2 powi (- 14) \<le> d" "d \<le> 2 powi (- 13)"
    using to_double_pow2_between[of "- 14" "- 13" "0.0001"] by auto
  show ?thesis
    using to_float_pow2_between[of "- 14" "- 13" d] d by simp
qed

lemma PI_bounds: "\<exists>p. PI = Fin p \<and> 2 \<le> p \<and> p \<le> 4"
  using to_double_pow2_between[of 1 2 "3.1415927"] by (simp add: PI_def)

lemma INV_SQRT_2PI_bounds: "\<exists>c. INV_SQRT_2PI = Fin c \<and> 1 / 4 \<le> c \<and> c \<le> 1 / 2"
proof -
  obtain p where p: "PI = Fin p" "2 \<le> p" "p \<le> 4"
    using PI_bounds by blast
  have "muld PI (Fin 2) = to_double (Fin (p * 2))"
    by (simp add: muld_def p(1) fl_Fin_simps)
  then obtain a where a: "muld PI (Fin 2) = Fin a" "4 \<le> a" "a \<le> 8"
    using to_double_pow2_between[of 2 3 "p * 2"] p(2,3) by auto
  obtain b where b: "to_float (Fin a) = Fin b" "4 \<le> b" "b \<le> 8"
    using to_float_pow2_between[of 2 3 a] a by auto
  have "sqrt 4 \<le> sqrt b" "sqrt b \<le> sqrt 16"
    using b(2,3) by (simp_all only: real_sqrt_le_iff)
  then have sq: "2 \<le> sqrt b" "sqrt b \<le> 4"
    using real_sqrt_four real_sqrt_abs[of 4] by simp_all
  have "sqrtf (Fin b) = to_float (Fin (sqrt b))"
    using b(2) by (simp add: sqrtf_def fl_Fin_simps)
  then obtain s where s: "sqrtf (Fin b) = Fin s" "2 \<le> s" "s \<le> 4"
    using to_float_pow2_between[of 1 2 "sqrt b"] sq by auto
  have "1 / 4 \<le> 1 / s" "1 / s \<le> 1 / 2"
    using s(2,3) by (simp_all add: field_simps)
  then obtain c where c: "to_float (Fin (1 / s)) = Fin c" "1 / 4 \<le> c" "c \<le> 1 / 2"
    using to_float_pow2_between[of "- 2" "- 1" "1 / s"] by auto
  then show ?thesis
    using s(2) by (simp add: INV_SQRT_2PI_def a(1) b(1) s(1) divf_def fl_Fin_simps)
qed

text \<open>the error of one rounding\<close>

lemma round_fin_half_quantum: "\<bar>round_fin F y - y\<bar> \<le> quantum F y / 2"
proof (cases "y = 0")
  case True
  then show ?thesis
    using quantum_pos[of F y] by (simp add: round_fin_def)
next
  case False
  define q where "q = quantum F y"
  have q: "0 < q"
    unfolding q_def by (rule quantum_pos)
  have "round_fin F y - y = (of_int (rne (y / q)) - y / q) * q"
    using False q by (simp add: round_fin_def q_def algebra_simps)
  then have "\<bar>round_fin F y - y\<bar> = \<bar>of_int (rne (y / q)) - y / q\<bar> * q"
    using q by (simp add: abs_mult)
  also have "\<dots> \<le> 1 / 2 * q"
    using q by (intro mult_right_mono rne_close) simp
  finally show ?thesis
    by (simp add: q_def)
qed

lemma round_fin_err:
  "\<bar>round_fin F y - y\<bar>
     \<le> \<bar>y\<bar> * 2 powi (- int (prec F)) + 2 powi (emin F - int (prec F))"
proof (cases "y = 0")
  case True
  then show ?thesis
    by (simp add: round_fin_def)
next
  case False
  define e where "e = \<lfloor>log 2 \<bar>y\<bar>\<rfloor>"
  have e: "2 powi e \<le> \<bar>y\<bar>"
    unfolding e_def using False by (rule ilog_bounds)
  have "quantum F y / 2 = 2 powi (max (emin F) e - int (prec F) + 1 - 1)"
    unfolding quantum_def e_def by (subst power_int_diff) simp_all
  then have h: "quantum F y / 2 = 2 powi (max (emin F) e - int (prec F))"
    by simp
  show ?thesis
  proof (cases "emin F \<le> e")
    case True
    then have "quantum F y / 2 = 2 powi e * 2 powi (- int (prec F))"
      unfolding h by (simp add: max_def power_int_add[symmetric])
    also have "\<dots> \<le> \<bar>y\<bar> * 2 powi (- int (prec F))"
      using e by (intro mult_right_mono) simp_all
    finally have "quantum F y / 2 \<le> \<bar>y\<bar> * 2 powi (- int (prec F))" .
    moreover have "(0::real) \<le> 2 powi (emin F - int (prec F))"
      by simp
    ultimately show ?thesis
      using round_fin_half_quantum[of F y] by linarith
  next
    case False
    then have "quantum F y / 2 = 2 powi (emin F - int (prec F))"
      unfolding h by (simp add: max_def)
    moreover have "0 \<le> \<bar>y\<bar> * 2 powi (- int (prec F))"
      by simp
    ultimately show ?thesis
      using round_fin_half_quantum[of F y] by linarith
  qed
qed

lemma round_fin_rel:
  assumes "2 powi (emin F) \<le> \<bar>y\<bar>"
  shows "\<bar>round_fin F y - y\<bar> \<le> \<bar>y\<bar> * 2 powi (- int (prec F))"
proof -
  have y: "y \<noteq> 0"
    using assms by (smt (verit) abs_zero zero_less_power_int)
  define e where "e = \<lfloor>log 2 \<bar>y\<bar>\<rfloor>"
  have e: "2 powi e \<le> \<bar>y\<bar>" "\<bar>y\<bar> < 2 powi (e + 1)"
    unfolding e_def using y by (rule ilog_bounds)+
  have "2 powi (emin F) < (2::real) powi (e + 1)"
    using assms e(2) by linarith
  then have le: "emin F \<le> e"
    using pow2_less_D[of "emin F" "e + 1"] by simp
  have "quantum F y / 2 = 2 powi (max (emin F) e - int (prec F) + 1 - 1)"
    unfolding quantum_def e_def by (subst power_int_diff) simp_all
  then have "quantum F y / 2 = 2 powi e * 2 powi (- int (prec F))"
    using le by (simp add: max_def power_int_add[symmetric])
  also have "\<dots> \<le> \<bar>y\<bar> * 2 powi (- int (prec F))"
    using e(1) by (intro mult_right_mono) simp_all
  finally show ?thesis
    using round_fin_half_quantum[of F y] by linarith
qed

lemma rnd_Fin_D: "rnd F (Fin x) = Fin y \<Longrightarrow> y = round_fin F x"
  by (simp add: rnd_def Let_def split: if_splits)

lemma to_float_fin:
  assumes "\<bar>y\<bar> \<le> 2 ^ 127"
  shows "to_float (Fin y) = Fin (round_fin binary32 y)"
proof -
  have r: "representable binary32 (of_int (- 1) * 2 powi 127)"
    "representable binary32 (of_int 1 * 2 powi 127)"
    by (rule repr32; simp)+
  have "\<exists>y'. to_float (Fin y) = Fin y' \<and> of_int (- 1) * 2 powi 127 \<le> y' \<and> y' \<le> of_int 1 * 2 powi 127"
    using r assms by (intro to_float_between) (simp_all add: abs_le_iff)
  then obtain y' where y': "to_float (Fin y) = Fin y'"
    by blast
  then show ?thesis
    using rnd_Fin_D[of binary32 y y'] by (simp add: to_float_def)
qed

lemma to_double_fin:
  assumes "\<bar>y\<bar> \<le> 2 ^ 127"
  shows "to_double (Fin y) = Fin (round_fin binary64 y)"
proof -
  have r: "representable binary64 (of_int (- 1) * 2 powi 127)"
    "representable binary64 (of_int 1 * 2 powi 127)"
    by (rule repr64; simp)+
  have "\<exists>y'. to_double (Fin y) = Fin y' \<and> of_int (- 1) * 2 powi 127 \<le> y' \<and> y' \<le> of_int 1 * 2 powi 127"
    using r assms by (intro to_double_between) (simp_all add: abs_le_iff)
  then obtain y' where y': "to_double (Fin y) = Fin y'"
    by blast
  then show ?thesis
    using rnd_Fin_D[of binary64 y y'] by (simp add: to_double_def)
qed

lemma to_float_err:
  assumes "\<bar>y\<bar> \<le> 2 ^ 127"
  shows "\<exists>y'. to_float (Fin y) = Fin y' \<and> \<bar>y' - y\<bar> \<le> \<bar>y\<bar> / 2 ^ 24 + 1 / 2 ^ 150"
proof -
  have "\<bar>round_fin binary32 y - y\<bar> \<le> \<bar>y\<bar> * 2 powi (- 24) + 2 powi (- 150)"
    using round_fin_err[of binary32 y] by (simp add: binary32_def)
  then have "\<bar>round_fin binary32 y - y\<bar> \<le> \<bar>y\<bar> / 2 ^ 24 + 1 / 2 ^ 150"
    by (simp add: power_int_minus divide_simps)
  then show ?thesis
    using to_float_fin[OF assms] by blast
qed

lemma to_double_err:
  assumes "\<bar>y\<bar> \<le> 2 ^ 127"
  shows "\<exists>y'. to_double (Fin y) = Fin y' \<and> \<bar>y' - y\<bar> \<le> \<bar>y\<bar> / 2 ^ 53 + 1 / 2 ^ 150"
proof -
  have "\<bar>round_fin binary64 y - y\<bar> \<le> \<bar>y\<bar> * 2 powi (- 53) + 2 powi (- 1075)"
    using round_fin_err[of binary64 y] by (simp add: binary64_def)
  moreover have "(2::real) powi (- 1075) \<le> 2 powi (- 150)"
    by (rule pow2_mono) simp
  ultimately have "\<bar>round_fin binary64 y - y\<bar> \<le> \<bar>y\<bar> * 2 powi (- 53) + 2 powi (- 150)"
    by linarith
  then have "\<bar>round_fin binary64 y - y\<bar> \<le> \<bar>y\<bar> / 2 ^ 53 + 1 / 2 ^ 150"
    by (simp add: power_int_minus divide_simps)
  then show ?thesis
    using to_double_fin[OF assms] by blast
qed

lemma to_float_rel:
  assumes "1 / 2 ^ 126 \<le> y" "y \<le> 2 ^ 127"
  shows "\<exists>y'. to_float (Fin y) = Fin y' \<and> y * (1 - 1 / 2 ^ 24) \<le> y' \<and> y' \<le> y * (1 + 1 / 2 ^ 24)"
proof -
  have y: "0 < y"
    using assms(1) by (smt (verit) divide_pos_pos zero_less_power)
  have "2 powi (emin binary32) \<le> \<bar>y\<bar>"
    using assms(1) y by (simp add: binary32_def power_int_minus divide_simps)
  then have "\<bar>round_fin binary32 y - y\<bar> \<le> \<bar>y\<bar> * 2 powi (- int (prec binary32))"
    by (rule round_fin_rel)
  then have "\<bar>round_fin binary32 y - y\<bar> \<le> y / 2 ^ 24"
    using y by (simp add: binary32_def power_int_minus divide_simps)
  then have "y - y / 2 ^ 24 \<le> round_fin binary32 y \<and> round_fin binary32 y \<le> y + y / 2 ^ 24"
    by linarith
  then have "y * (1 - 1 / 2 ^ 24) \<le> round_fin binary32 y \<and> round_fin binary32 y \<le> y * (1 + 1 / 2 ^ 24)"
    by (simp add: algebra_simps)
  moreover have "\<bar>y\<bar> \<le> 2 ^ 127"
    using y assms(2) by simp
  ultimately show ?thesis
    using to_float_fin[of y] by blast
qed


lemma to_float_near:
  assumes "\<bar>y\<bar> \<le> B" "B \<le> 2 ^ 127"
  shows "\<exists>y'. to_float (Fin y) = Fin y'
           \<and> y - (B / 2 ^ 24 + 1 / 2 ^ 150) \<le> y' \<and> y' \<le> y + (B / 2 ^ 24 + 1 / 2 ^ 150)"
proof -
  have "\<bar>y\<bar> \<le> 2 ^ 127"
    using assms by linarith
  then obtain y' where y': "to_float (Fin y) = Fin y'" "\<bar>y' - y\<bar> \<le> \<bar>y\<bar> / 2 ^ 24 + 1 / 2 ^ 150"
    using to_float_err by blast
  have "\<bar>y\<bar> / 2 ^ 24 \<le> B / 2 ^ 24"
    using assms(1) by (intro divide_right_mono) simp_all
  then have "\<bar>y' - y\<bar> \<le> B / 2 ^ 24 + 1 / 2 ^ 150"
    using y'(2) by linarith
  then have "y - (B / 2 ^ 24 + 1 / 2 ^ 150) \<le> y' \<and> y' \<le> y + (B / 2 ^ 24 + 1 / 2 ^ 150)"
    by linarith
  then show ?thesis
    using y'(1) by blast
qed

lemma to_double_near:
  assumes "\<bar>y\<bar> \<le> B" "B \<le> 2 ^ 127"
  shows "\<exists>y'. to_double (Fin y) = Fin y'
           \<and> y - (B / 2 ^ 53 + 1 / 2 ^ 150) \<le> y' \<and> y' \<le> y + (B / 2 ^ 53 + 1 / 2 ^ 150)"
proof -
  have "\<bar>y\<bar> \<le> 2 ^ 127"
    using assms by linarith
  then obtain y' where y': "to_double (Fin y) = Fin y'" "\<bar>y' - y\<bar> \<le> \<bar>y\<bar> / 2 ^ 53 + 1 / 2 ^ 150"
    using to_double_err by blast
  have "\<bar>y\<bar> / 2 ^ 53 \<le> B / 2 ^ 53"
    using assms(1) by (intro divide_right_mono) simp_all
  then have "\<bar>y' - y\<bar> \<le> B / 2 ^ 53 + 1 / 2 ^ 150"
    using y'(2) by linarith
  then have "y - (B / 2 ^ 53 + 1 / 2 ^ 150) \<le> y' \<and> y' \<le> y + (B / 2 ^ 53 + 1 / 2 ^ 150)"
    by linarith
  then show ?thesis
    using y'(1) by blast
qed

subsection \<open>The loop of the analytic estimator\<close>

lemma rieman_loop_unfold:
  "rieman_loop m d st x b =
     (if fl_lt b target_mass
      then rieman_loop m d st (fst (rieman_step m d st (x, b))) (snd (rieman_step m d st (x, b)))
      else Some x)"
  by (subst rieman_loop.simps) (simp add: rieman_step_def Let_def)

lemma rieman_loop_returns:
  assumes "\<not> fl_lt (snd ((rieman_step m d st ^^ n) (x, b))) target_mass"
    and "\<forall>k<n. fl_lt (snd ((rieman_step m d st ^^ k) (x, b))) target_mass"
  shows "rieman_loop m d st x b = Some (fst ((rieman_step m d st ^^ n) (x, b)))"
  using assms
proof (induction n arbitrary: x b)
  case 0
  then show ?case by (subst rieman_loop_unfold) simp
next
  case (Suc n)
  have b: "fl_lt b target_mass" using Suc.prems(2) by force
  obtain x' b' where s: "rieman_step m d st (x, b) = (x', b')" by (cases "rieman_step m d st (x, b)")
  have 1: "\<not> fl_lt (snd ((rieman_step m d st ^^ n) (x', b'))) target_mass"
    using Suc.prems(1) by (simp add: funpow_swap1 s)
  have 2: "\<forall>k<n. fl_lt (snd ((rieman_step m d st ^^ k) (x', b'))) target_mass"
  proof (intro allI impI)
    fix k assume "k < n"
    then have "Suc k < Suc n"
      by simp
    then have "fl_lt (snd ((rieman_step m d st ^^ Suc k) (x, b))) target_mass"
      using Suc.prems(2) by blast
    then show "fl_lt (snd ((rieman_step m d st ^^ k) (x', b'))) target_mass"
      by (simp add: funpow_swap1 s)
  qed
  have "rieman_loop m d st x b = rieman_loop m d st x' b'"
    by (subst rieman_loop_unfold) (simp add: b s)
  also have "\<dots> = Some (fst ((rieman_step m d st ^^ n) (x', b')))"
    by (rule Suc.IH[OF 1 2])
  finally show ?case by (simp add: funpow_swap1 s)
qed

lemma rieman_loop_result:
  assumes "rieman_loop m d st x b = Some r"
  shows "\<exists>n. \<not> fl_lt (snd ((rieman_step m d st ^^ n) (x, b))) target_mass
            \<and> (\<forall>k<n. fl_lt (snd ((rieman_step m d st ^^ k) (x, b))) target_mass)
            \<and> r = fst ((rieman_step m d st ^^ n) (x, b))"
proof -
  define Q where "Q = (\<lambda>m d st x b r.
     \<exists>n. \<not> fl_lt (snd ((rieman_step m d st ^^ n) (x, b))) target_mass
            \<and> (\<forall>k<n. fl_lt (snd ((rieman_step m d st ^^ k) (x, b))) target_mass)
            \<and> r = fst ((rieman_step m d st ^^ n) (x, b)))"
  have step: "Q m d st x b r"
    if IH: "\<And>m d st x b r. loop m d st x b = Some r \<Longrightarrow> Q m d st x b r"
      and body: "(if fl_lt b target_mass
            then let height = height_at m d x
                 in Let (addf b (mulf height st)) (loop m d st (addf x st))
            else Some x) = Some r"
    for loop m d st x b r
  proof (cases "fl_lt b target_mass")
    case False
    then have "r = x" using body by simp
    then show ?thesis unfolding Q_def using False by (intro exI[of _ 0]) simp
  next
    case True
    obtain x' b' where s: "rieman_step m d st (x, b) = (x', b')"
      by (cases "rieman_step m d st (x, b)")
    have "loop m d st x' b' = Some r"
      using body True s by (simp add: rieman_step_def Let_def)
    from IH[OF this] obtain n where n:
      "\<not> fl_lt (snd ((rieman_step m d st ^^ n) (x', b'))) target_mass"
      "\<forall>k<n. fl_lt (snd ((rieman_step m d st ^^ k) (x', b'))) target_mass"
      "r = fst ((rieman_step m d st ^^ n) (x', b'))"
      unfolding Q_def by blast
    have "\<forall>k<Suc n. fl_lt (snd ((rieman_step m d st ^^ k) (x, b))) target_mass"
    proof (intro allI impI)
      fix k assume k: "k < Suc n"
      show "fl_lt (snd ((rieman_step m d st ^^ k) (x, b))) target_mass"
      proof (cases k)
        case 0 then show ?thesis using True by simp
      next
        case (Suc j)
        then have "j < n" using k by simp
        then have "fl_lt (snd ((rieman_step m d st ^^ j) (x', b'))) target_mass"
          using n(2) by blast
        then show ?thesis by (simp add: Suc funpow_swap1 s)
      qed
    qed
    then show ?thesis unfolding Q_def using n(1,3)
      by (intro exI[of _ "Suc n"]) (simp add: funpow_swap1 s)
  qed
  have "Q m d st x b r"
  proof (rule rieman_loop.raw_induct[where P = Q and xa = "((((m, d), st), x), b)" and y = r, simplified])
    show "rieman_loop m d st x b = Some r"
      by (rule assms)
  qed (erule step[rotated], blast)
  then show ?thesis by (simp add: Q_def)
qed

lemma rieman_eq:
  "rieman data m d adress =
     map_option (\<lambda>x. adress\<lparr>worst_case_rieman := x\<rparr>)
       (rieman_loop m d rieman_step_size (rieman_start m d) (Fin 0))"
  by (simp add: rieman_def rieman_start_def rieman_step_size_def Let_def split: option.split)

lemma int_to_float_5: "int_to_float 5 = Fin 5"
  using to_float_exact[OF repr32[of 5 0]] by (simp add: int_to_float_def)

lemma overflow_5: "mulf (Fin 5) (Fin huge_deviation) = PInf"
proof -
  have "representable binary32 (of_int 5 * 2 powi 126)"
    by (rule repr32) simp_all
  then have "round_fin binary32 (5 * 2 ^ 126) = 5 * 2 ^ 126"
    using round_fin_representable[of binary32 "5 * 2 ^ 126"] by simp
  then show ?thesis
    by (simp add: mulf_def fl_Fin_simps to_float_def rnd_def binary32_def huge_deviation_def)
qed

lemma start_overflow: "rieman_start (Fin 0) (Fin huge_deviation) = NInf"
  by (simp add: rieman_start_def int_to_float_5 overflow_5 subf_def fl_sub_def fl_neg_def
      fl_add_def to_float_special)

lemma stuck_step:
  "rieman_step (Fin 0) (Fin huge_deviation) rieman_step_size (NInf, Fin 0) = (NInf, Fin 0)"
proof -
  obtain s where s: "rieman_step_size = Fin s"
    using step_size_bounds unfolding rieman_step_size_def by blast
  obtain c where c: "INV_SQRT_2PI = Fin c" "1 / 4 \<le> c" "c \<le> 1 / 2"
    using INV_SQRT_2PI_bounds by blast
  have pos: "0 < huge_deviation"
    by (simp add: huge_deviation_def)
  have z: "divf (subf NInf (Fin 0)) (Fin huge_deviation) = NInf"
    using pos
    by (simp add: subf_def fl_sub_def fl_neg_def fl_add_def to_float_special divf_def fl_div_def
        fl_sign_def inf_of_def)
  have e: "expf (to_float (muld (Fin (- 0.5)) (mulf NInf NInf))) = Fin 0"
    by (simp add: mulf_def fl_mul_def fl_sign_def inf_of_def to_float_special muld_def
        to_double_special expf_def fl_exp_def to_float_0)
  have "2 powi (- 128) \<le> c / huge_deviation" "c / huge_deviation \<le> 2 powi (- 127)"
    using c(2,3) by (simp_all add: field_simps huge_deviation_def)
  then obtain h where h: "to_float (Fin (c / huge_deviation)) = Fin h"
    using to_float_pow2_between[of "- 128" "- 127" "c / huge_deviation"] by auto
  have d: "divf INV_SQRT_2PI (Fin huge_deviation) = Fin h"
    using pos by (simp add: c(1) divf_def fl_Fin_simps h)
  have "height_at (Fin 0) (Fin huge_deviation) NInf = Fin 0"
    unfolding height_at_def Let_def z e d
    by (simp add: mulf_def fl_Fin_simps to_float_0)
  then show ?thesis
    by (simp add: rieman_step_def s addf_def mulf_def fl_Fin_simps to_float_0 fl_add_def
        to_float_special)
qed

lemma zero_below_target: "fl_lt (Fin 0) target_mass"
proof -
  obtain t where t: "target_mass = Fin t" "1 / 32 \<le> t"
    using target_mass_bounds by blast
  show ?thesis
    unfolding t(1) using t(2) by (simp add: fl_Fin_simps)
qed

lemma rieman_never_returns:
  "rieman data (Fin 0) (Fin huge_deviation) adress = None"
proof -
  have it: "(rieman_step (Fin 0) (Fin huge_deviation) rieman_step_size ^^ n) (NInf, Fin 0) = (NInf, Fin 0)" for n
    by (induction n) (simp_all add: stuck_step)
  have "rieman_loop (Fin 0) (Fin huge_deviation) rieman_step_size NInf (Fin 0) = None"
  proof (cases "rieman_loop (Fin 0) (Fin huge_deviation) rieman_step_size NInf (Fin 0)")
    case (Some r)
    from rieman_loop_result[OF this] show ?thesis
      using zero_below_target by (simp add: it)
  qed simp
  then show ?thesis
    by (simp add: rieman_eq start_overflow)
qed

lemma rieman_state_0: "rieman_state m d 0 = (rieman_start m d, Fin 0)"
  by (simp add: rieman_state_def)

lemma rieman_state_Suc:
  "rieman_state m d (Suc n) = rieman_step m d rieman_step_size (rieman_state m d n)"
  by (simp add: rieman_state_def)

lemma rieman_x_0: "rieman_x m d 0 = subf m (mulf (int_to_float 5) d)"
  by (simp add: rieman_x_def rieman_state_0 rieman_start_def)

lemma rieman_mass_0: "rieman_mass m d 0 = Fin 0"
  by (simp add: rieman_mass_def rieman_state_0)

lemma rieman_x_Suc: "rieman_x m d (Suc n) = addf (rieman_x m d n) rieman_step_size"
  by (simp add: rieman_x_def rieman_state_Suc rieman_step_def)

lemma rieman_mass_Suc:
  "rieman_mass m d (Suc n) =
     addf (rieman_mass m d n) (mulf (height_at m d (rieman_x m d n)) rieman_step_size)"
  by (simp add: rieman_mass_def rieman_x_def rieman_state_Suc rieman_step_def)

lemma rieman_returns_iff_aux:
  "(\<exists>a. rieman data m d adress = Some a) \<longleftrightarrow> (\<exists>n. \<not> fl_lt (rieman_mass m d n) target_mass)"
proof
  assume "\<exists>a. rieman data m d adress = Some a"
  then obtain r where "rieman_loop m d rieman_step_size (rieman_start m d) (Fin 0) = Some r"
    by (auto simp: rieman_eq)
  from rieman_loop_result[OF this] show "\<exists>n. \<not> fl_lt (rieman_mass m d n) target_mass"
    unfolding rieman_mass_def rieman_state_def by blast
next
  assume ex: "\<exists>n. \<not> fl_lt (rieman_mass m d n) target_mass"
  define n where "n = (LEAST n. \<not> fl_lt (rieman_mass m d n) target_mass)"
  have 1: "\<not> fl_lt (rieman_mass m d n) target_mass"
    unfolding n_def using ex by (rule LeastI_ex)
  have 2: "\<forall>k<n. fl_lt (rieman_mass m d k) target_mass"
    unfolding n_def using not_less_Least by blast
  have "rieman_loop m d rieman_step_size (rieman_start m d) (Fin 0)
          = Some (fst ((rieman_step m d rieman_step_size ^^ n) (rieman_start m d, Fin 0)))"
    by (rule rieman_loop_returns) (use 1 2 in \<open>simp_all add: rieman_mass_def rieman_state_def\<close>)
  then show "\<exists>a. rieman data m d adress = Some a"
    by (simp add: rieman_eq)
qed

lemma not_below_target: "\<not> fl_lt v target_mass \<longleftrightarrow> v = NaN \<or> fl_le target_mass v"
proof -
  obtain t where t: "target_mass = Fin t"
    using target_mass_bounds by blast
  show ?thesis
    unfolding t by (cases v) (auto simp: fl_lt_def fl_le_def fl_eq_def)
qed

lemma rieman_stores_first:
  assumes "rieman data m d adress = Some a"
  shows "\<exists>N. 0 < N
            \<and> (\<forall>k<N. fl_lt (rieman_mass m d k) target_mass)
            \<and> (rieman_mass m d N = NaN \<or> fl_le target_mass (rieman_mass m d N))
            \<and> a = adress\<lparr>worst_case_rieman := rieman_x m d N\<rparr>"
proof -
  obtain r where r: "rieman_loop m d rieman_step_size (rieman_start m d) (Fin 0) = Some r"
    and a: "a = adress\<lparr>worst_case_rieman := r\<rparr>"
    using assms by (auto simp: rieman_eq)
  from rieman_loop_result[OF r] obtain N where N:
    "\<not> fl_lt (rieman_mass m d N) target_mass"
    "\<forall>k<N. fl_lt (rieman_mass m d k) target_mass"
    "r = rieman_x m d N"
    unfolding rieman_mass_def rieman_x_def rieman_state_def by blast
  have "N \<noteq> 0"
  proof
    assume "N = 0"
    with N(1) zero_below_target show False
      by (simp add: rieman_mass_0)
  qed
  then have "0 < N"
    by simp
  then show ?thesis
    using N a unfolding not_below_target by blast
qed

lemma exp_lower: "2 powi (- 21) \<le> exp (- 12.5 :: real)"
proof -
  have "exp (12.5::real) \<le> exp 13"
    by simp
  also have "exp (13::real) = exp 1 ^ 13"
    using exp_of_nat_mult[of 13 "1::real"] by simp
  also have "\<dots> \<le> 3 ^ 13"
    by (rule power_mono) (use exp_le in simp_all)
  also have "\<dots> \<le> (2::real) ^ 21"
    by simp
  finally have "exp (12.5::real) \<le> 2 ^ 21" .
  then have "1 / 2 ^ 21 \<le> 1 / exp (12.5::real)"
    by (intro divide_left_mono) simp_all
  then show ?thesis
    by (simp add: exp_minus inverse_eq_divide)
qed

lemma exp_upper: "exp (- 12.5 :: real) \<le> 2 powi 0"
  by simp

lemma tiny_run:
  "\<exists>x1 w. rieman_x (Fin 0) (Fin tiny_deviation) 0 = Fin (- (5 * tiny_deviation))
      \<and> rieman_x (Fin 0) (Fin tiny_deviation) 1 = Fin x1 \<and> 0 < x1
      \<and> rieman_mass (Fin 0) (Fin tiny_deviation) 1 = Fin w \<and> 8 \<le> w"
proof -
  let ?t = tiny_deviation
  have t: "?t = 2 powi (- 40)" "0 < ?t"
    by (simp_all add: tiny_deviation_def)
  obtain s where s: "rieman_step_size = Fin s" "1 / 16384 \<le> s" "s \<le> 1 / 8192"
    using step_size_bounds unfolding rieman_step_size_def by blast
  obtain c where c: "INV_SQRT_2PI = Fin c" "1 / 4 \<le> c" "c \<le> 1 / 2"
    using INV_SQRT_2PI_bounds by blast
  have m5: "to_float (Fin (5 * ?t)) = Fin (5 * ?t)"
    using to_float_exact[OF repr32[of 5 "- 40"]] by (simp add: tiny_deviation_def)
  have n5: "to_float (Fin (- (5 * ?t))) = Fin (- (5 * ?t))"
    using to_float_exact[OF repr32[of "- 5" "- 40"]] by (simp add: tiny_deviation_def)
  have x0: "rieman_x (Fin 0) (Fin ?t) 0 = Fin (- (5 * ?t))"
    by (simp add: rieman_x_0 int_to_float_5 mulf_def subf_def fl_Fin_simps m5 n5)
  have f5: "to_float (Fin (- 5)) = Fin (- 5)"
    using to_float_exact[OF repr32[of "- 5" 0]] by simp
  have f25: "to_float (Fin 25) = Fin 25"
    using to_float_exact[OF repr32[of 25 0]] by simp
  have d125: "to_double (Fin (- 12.5)) = Fin (- 12.5)"
    using to_double_exact[OF repr64[of "- 25" "- 1"]] by simp
  have f125: "to_float (Fin (- 12.5)) = Fin (- 12.5)"
    using to_float_exact[OF repr32[of "- 25" "- 1"]] by simp
  have z: "divf (subf (Fin (- (5 * ?t))) (Fin 0)) (Fin ?t) = Fin (- 5)"
    using t(2) n5 f5 by (simp add: subf_def divf_def fl_Fin_simps)
  have arg: "to_float (muld (Fin (- 0.5)) (mulf (Fin (- 5)) (Fin (- 5)))) = Fin (- 12.5)"
    using f25 d125 f125 by (simp add: mulf_def muld_def fl_Fin_simps)
  obtain e where e: "expf (Fin (- 12.5)) = Fin e" "2 powi (- 21) \<le> e" "e \<le> 2 powi 0"
    using to_float_pow2_between[of "- 21" 0 "exp (- 12.5)"] exp_lower exp_upper
    by (auto simp: expf_def fl_Fin_simps)
  have "2 powi 38 \<le> c / ?t" "c / ?t \<le> 2 powi 39"
    using c(2,3) by (simp_all add: tiny_deviation_def)
  then obtain q where q: "to_float (Fin (c / ?t)) = Fin q" "2 powi 38 \<le> q" "q \<le> 2 powi 39"
    using to_float_pow2_between[of 38 39 "c / ?t"] by auto
  have dq: "divf INV_SQRT_2PI (Fin ?t) = Fin q"
    using t(2) by (simp add: c(1) divf_def fl_Fin_simps q(1))
  have "2 powi 38 * 2 powi (- 21) \<le> q * e"
    by (rule mult_mono) (use q e in simp_all)
  moreover have "q * e \<le> 2 powi 39 * 2 powi 0"
    by (rule mult_mono) (use q e in simp_all)
  ultimately have "2 powi 17 \<le> q * e" "q * e \<le> 2 powi 39"
    by simp_all
  then obtain h where h: "to_float (Fin (q * e)) = Fin h" "2 powi 17 \<le> h" "h \<le> 2 powi 39"
    using to_float_pow2_between[of 17 39 "q * e"] by auto
  have hh: "height_at (Fin 0) (Fin ?t) (Fin (- (5 * ?t))) = Fin h"
    unfolding height_at_def Let_def z arg e(1) dq by (simp add: mulf_def fl_Fin_simps h(1))
  have "2 powi 17 * (1 / 16384) \<le> h * s"
    by (rule mult_mono) (use h s in simp_all)
  moreover have "h * s \<le> 2 powi 39 * (1 / 8192)"
    by (rule mult_mono) (use h s in simp_all)
  ultimately have "2 powi 3 \<le> h * s" "h * s \<le> 2 powi 26"
    by simp_all
  then obtain w0 where w0: "to_float (Fin (h * s)) = Fin w0" "2 powi 3 \<le> w0" "w0 \<le> 2 powi 26"
    using to_float_pow2_between[of 3 26 "h * s"] by auto
  then obtain w where w: "to_float (Fin w0) = Fin w" "2 powi 3 \<le> w" "w \<le> 2 powi 26"
    using to_float_pow2_between[of 3 26 w0] by auto
  have m1: "rieman_mass (Fin 0) (Fin ?t) 1 = Fin w"
    using rieman_mass_Suc[of "Fin 0" "Fin ?t" 0]
    by (simp add: rieman_mass_0 x0 hh s(1) mulf_def addf_def fl_Fin_simps w0(1) w(1))
  have "2 powi (- 15) \<le> - (5 * ?t) + s" "- (5 * ?t) + s \<le> 2 powi (- 13)"
    using s(2,3) by (simp_all add: tiny_deviation_def)
  then obtain x1 where x1: "to_float (Fin (- (5 * ?t) + s)) = Fin x1" "2 powi (- 15) \<le> x1"
    using to_float_pow2_between[of "- 15" "- 13" "- (5 * ?t) + s"] by auto
  have xx1: "rieman_x (Fin 0) (Fin ?t) 1 = Fin x1"
    using rieman_x_Suc[of "Fin 0" "Fin ?t" 0] x1(1)
    by (simp add: x0 s(1) addf_def fl_Fin_simps)
  have "0 < x1"
    using x1(2) by (smt (verit) zero_less_power_int)
  then show ?thesis
    using x0 xx1 m1 w(2) by auto
qed

lemma tiny_returns:
  "rieman data (Fin 0) (Fin tiny_deviation) adress
     = Some (adress\<lparr>worst_case_rieman := rieman_x (Fin 0) (Fin tiny_deviation) 1\<rparr>)"
proof -
  obtain x1 w where r: "rieman_mass (Fin 0) (Fin tiny_deviation) 1 = Fin w" "8 \<le> w"
    using tiny_run by blast
  obtain t where t: "target_mass = Fin t" "t \<le> 1 / 16"
    using target_mass_bounds by blast
  have 1: "\<not> fl_lt (rieman_mass (Fin 0) (Fin tiny_deviation) 1) target_mass"
    unfolding r(1) t(1) using r(2) t(2) by (simp add: fl_Fin_simps)
  have 2: "\<forall>k<1. fl_lt (rieman_mass (Fin 0) (Fin tiny_deviation) k) target_mass"
    using zero_below_target by (simp add: rieman_mass_0)
  have "rieman_loop (Fin 0) (Fin tiny_deviation) rieman_step_size
          (rieman_start (Fin 0) (Fin tiny_deviation)) (Fin 0)
        = Some (fst ((rieman_step (Fin 0) (Fin tiny_deviation) rieman_step_size ^^ 1)
                  (rieman_start (Fin 0) (Fin tiny_deviation), Fin 0)))"
    by (rule rieman_loop_returns) (use 1 2 in \<open>simp_all add: rieman_mass_def rieman_state_def\<close>)
  then show ?thesis
    by (simp add: rieman_eq rieman_x_def rieman_state_def)
qed

text \<open>the run with an infinite deviation\<close>

lemma inf_start: "rieman_x (Fin 0) PInf 0 = NInf"
  by (simp add: rieman_x_0 int_to_float_5 mulf_def fl_mul_def fl_sign_def inf_of_def
      to_float_special subf_def fl_sub_def fl_neg_def fl_add_def)

lemma inf_height: "height_at (Fin 0) PInf NInf = NaN"
proof -
  obtain c where c: "INV_SQRT_2PI = Fin c"
    using INV_SQRT_2PI_bounds by blast
  have z: "divf (subf NInf (Fin 0)) PInf = NaN"
    by (simp add: subf_def fl_sub_def fl_neg_def fl_add_def to_float_special divf_def fl_div_def)
  have e: "expf (to_float (muld (Fin (- 0.5)) (mulf NaN NaN))) = NaN"
    by (simp add: mulf_def fl_mul_def to_float_special muld_def to_double_special expf_def
        fl_exp_def)
  have q: "divf INV_SQRT_2PI PInf = Fin 0"
    by (simp add: c divf_def fl_div_def to_float_0)
  show ?thesis
    unfolding height_at_def Let_def z e q by (simp add: mulf_def fl_mul_def to_float_special)
qed

lemma inf_x: "rieman_x (Fin 0) PInf n = NInf"
proof (induction n)
  case 0
  show ?case by (rule inf_start)
next
  case (Suc n)
  obtain s where s: "rieman_step_size = Fin s"
    using step_size_bounds unfolding rieman_step_size_def by blast
  show ?case
    unfolding rieman_x_Suc Suc.IH s by (simp add: addf_def fl_add_def to_float_special)
qed

lemma inf_mass: "rieman_mass (Fin 0) PInf (Suc n) = NaN"
proof (induction n)
  case 0
  show ?case
    unfolding rieman_mass_Suc rieman_mass_0 inf_x inf_height
    by (simp add: mulf_def fl_mul_def addf_def fl_add_def to_float_special)
next
  case (Suc n)
  show ?case
    unfolding rieman_mass_Suc[of _ _ "Suc n"] Suc.IH
    by (simp add: addf_def fl_add_def to_float_special)
qed

lemma inf_never_reaches: "\<not> fl_le target_mass (rieman_mass (Fin 0) PInf k)"
proof (cases k)
  case 0
  obtain t where t: "target_mass = Fin t" "1 / 32 \<le> t"
    using target_mass_bounds by blast
  show ?thesis
    unfolding 0 rieman_mass_0 t(1) using t(2) by (simp add: fl_le_def fl_lt_def fl_eq_def)
next
  case (Suc n)
  obtain t where t: "target_mass = Fin t"
    using target_mass_bounds by blast
  show ?thesis
    unfolding Suc inf_mass t by (simp add: fl_le_def fl_lt_def fl_eq_def)
qed

lemma inf_returns:
  "rieman data (Fin 0) PInf adress = Some (adress\<lparr>worst_case_rieman := NInf\<rparr>)"
proof -
  have 1: "\<not> fl_lt (rieman_mass (Fin 0) PInf 1) target_mass"
    using inf_mass[of 0] by (simp add: fl_lt_def)
  have 2: "\<forall>k<1. fl_lt (rieman_mass (Fin 0) PInf k) target_mass"
    using zero_below_target by (simp add: rieman_mass_0)
  have "rieman_loop (Fin 0) PInf rieman_step_size (rieman_start (Fin 0) PInf) (Fin 0)
        = Some (fst ((rieman_step (Fin 0) PInf rieman_step_size ^^ 1)
                  (rieman_start (Fin 0) PInf, Fin 0)))"
    by (rule rieman_loop_returns) (use 1 2 in \<open>simp_all add: rieman_mass_def rieman_state_def\<close>)
  then have "rieman_loop (Fin 0) PInf rieman_step_size (rieman_start (Fin 0) PInf) (Fin 0)
        = Some (rieman_x (Fin 0) PInf 1)"
    by (simp add: rieman_x_def rieman_state_def)
  then show ?thesis
    unfolding inf_x by (simp add: rieman_eq)
qed

lemma tiny_in_range:
  "1 / 2 ^ 100 \<le> tiny_deviation" "tiny_deviation \<le> 2 ^ 50"
  "\<bar>- (5 * tiny_deviation) - 0\<bar> \<le> 8 * tiny_deviation"
  by (simp_all add: tiny_deviation_def)

subsection \<open>Termination of the analytic estimator\<close>

text \<open>
  C2, as the code has it. The loop of \<^verbatim>\<open>rieman\<close> carries no iteration or step cap: its
  only exit is the test \<^verbatim>\<open>bucket < 0.05\<close>. So \<^verbatim>\<open>rieman\<close> returns exactly when the
  accumulated mass stops being below 0.05 after some finite number of rectangles, for every
  mean and deviation.
\<close>

theorem rieman_returns_iff:
  "(\<exists>a. rieman data mean' deviation adress = Some a)
     \<longleftrightarrow> (\<exists>n. \<not> fl_lt (rieman_mass mean' deviation n) target_mass)"
  by (rule rieman_returns_iff_aux)

text \<open>
  The claim itself fails: with mean 0 and the positive binary32 deviation \<open>2\<^sup>1\<^sup>2\<^sup>6\<close> the
  product \<^verbatim>\<open>5*deviation\<close> overflows, the scan starts at minus infinity, every height is 0
  and the mass stays 0, so the loop never ends.
\<close>

theorem rieman_loops_forever_counterexample:
  "fl_lt (Fin 0) (Fin huge_deviation)
     \<and> to_float (Fin huge_deviation) = Fin huge_deviation
     \<and> (\<forall>data adress. rieman data (Fin 0) (Fin huge_deviation) adress = None)"
proof -
  have "to_float (Fin (of_int 1 * 2 powi 126)) = Fin (of_int 1 * 2 powi 126)"
    by (rule to_float_exact[OF repr32]) simp_all
  then have "to_float (Fin huge_deviation) = Fin huge_deviation"
    by (simp add: huge_deviation_def)
  moreover have "fl_lt (Fin 0) (Fin huge_deviation)"
    by (simp add: fl_Fin_simps huge_deviation_def)
  ultimately show ?thesis
    using rieman_never_returns by simp
qed

subsection \<open>The density evaluated by the analytic estimator\<close>

text \<open>
  Bounds on \<open>\<pi>\<close> from the Maclaurin expansion of the cosine, and with them the value of
  the constant \<^verbatim>\<open>INV_SQRT_2PI\<close> as the program computes it.
\<close>

lemma sum12:
  fixes f :: "nat \<Rightarrow> real"
  shows "(\<Sum>m<12. f m) = f 0 + f 1 + f 2 + f 3 + f 4 + f 5 + f 6 + f 7 + f 8 + f 9 + f 10 + f 11"
  by (simp add: eval_nat_numeral)

lemma cos_poly:
  fixes x :: real
  assumes "0 < x"
  shows "\<bar>cos x - (1 - x^2 / 2 + x^4 / 24 - x^6 / 720 + x^8 / 40320 - x^10 / 3628800)\<bar>
           \<le> x^12 / 479001600"
proof -
  obtain t where t: "cos x = (\<Sum>m<12. cos_coeff m * x ^ m) + (cos (t + 1/2 * real (12::nat) * pi) / fact 12) * x ^ 12"
    using Maclaurin_cos_expansion2[OF assms, of 12] by auto
  have c: "cos_coeff 1 = 0" "cos_coeff 2 = - 1 / 2" "cos_coeff 3 = 0" "cos_coeff 4 = 1 / 24"
    "cos_coeff 5 = 0" "cos_coeff 6 = - 1 / 720" "cos_coeff 7 = 0" "cos_coeff 8 = 1 / 40320"
    "cos_coeff 9 = 0" "cos_coeff 10 = - 1 / 3628800" "cos_coeff 11 = 0"
    by (simp_all add: cos_coeff_def fact_numeral)
  have "(\<Sum>m<12. cos_coeff m * x ^ m)
          = cos_coeff 0 * x ^ 0 + cos_coeff 1 * x ^ 1 + cos_coeff 2 * x ^ 2 + cos_coeff 3 * x ^ 3
            + cos_coeff 4 * x ^ 4 + cos_coeff 5 * x ^ 5 + cos_coeff 6 * x ^ 6 + cos_coeff 7 * x ^ 7
            + cos_coeff 8 * x ^ 8 + cos_coeff 9 * x ^ 9 + cos_coeff 10 * x ^ 10
            + cos_coeff 11 * x ^ 11"
    by (rule sum12)
  also have "\<dots> = 1 - x^2 / 2 + x^4 / 24 - x^6 / 720 + x^8 / 40320 - x^10 / 3628800"
    unfolding c by simp
  finally have s: "(\<Sum>m<12. cos_coeff m * x ^ m)
             = 1 - x^2 / 2 + x^4 / 24 - x^6 / 720 + x^8 / 40320 - x^10 / 3628800" .
  have "\<bar>(cos (t + 1/2 * real (12::nat) * pi) / fact 12) * x ^ 12\<bar>
          = \<bar>cos (t + 1/2 * real (12::nat) * pi)\<bar> * (x ^ 12 / fact 12)"
    using assms by (simp add: abs_mult)
  also have "\<dots> \<le> 1 * (x ^ 12 / fact 12)"
    using assms by (intro mult_right_mono abs_cos_le_one) simp
  also have "\<dots> = x^12 / 479001600"
    by (simp add: fact_numeral)
  finally show ?thesis
    unfolding t s by simp
qed

lemma cos_lower:
  fixes x :: real
  assumes "0 < x"
  shows "1 - x^2 / 2 + x^4 / 24 - x^6 / 720 + x^8 / 40320 - x^10 / 3628800 - x^12 / 479001600
           \<le> cos x"
  using cos_poly[OF assms] by linarith

lemma cos_upper:
  fixes x :: real
  assumes "0 < x"
  shows "cos x \<le> 1 - x^2 / 2 + x^4 / 24 - x^6 / 720 + x^8 / 40320 - x^10 / 3628800
                    + x^12 / 479001600"
  using cos_poly[OF assms] by linarith

lemma pi_bounds: "3.1414 \<le> pi" "pi \<le> 3.1418"
proof -
  have "(0::real) < 1 - 1.5707^2 / 2 + 1.5707^4 / 24 - 1.5707^6 / 720 + 1.5707^8 / 40320
                     - 1.5707^10 / 3628800 - 1.5707^12 / 479001600"
    by (simp add: power_divide)
  also have "\<dots> \<le> cos (1.5707::real)"
    by (rule cos_lower) simp
  finally have lo: "0 < cos (1.5707::real)" .
  have "cos (1.5709::real) \<le> 1 - 1.5709^2 / 2 + 1.5709^4 / 24 - 1.5709^6 / 720 + 1.5709^8 / 40320
                     - 1.5709^10 / 3628800 + 1.5709^12 / 479001600"
    by (rule cos_upper) simp
  also have "\<dots> < 0"
    by (simp add: power_divide)
  finally have hi: "cos (1.5709::real) < 0" .
  have p: "pi / 2 \<le> pi" "0 \<le> pi / 2"
    by simp_all
  have "cos (pi / 2) < cos (1.5707::real)"
    using lo by simp
  then have "1.5707 < pi / 2"
    using cos_mono_less_eq[of "pi / 2" "1.5707"] p pi_ge_two by simp
  then show "3.1414 \<le> pi"
    by simp
  have "cos (1.5709::real) < cos (pi / 2)"
    using hi by simp
  then have "pi / 2 < 1.5709"
    using cos_mono_less_eq[of "1.5709" "pi / 2"] p pi_ge_two by simp
  then show "pi \<le> 3.1418"
    by simp
qed


lemma sqrt_2pi_bounds: "2.5065 \<le> sqrt (2 * pi)" "sqrt (2 * pi) \<le> 2.5068"
proof -
  have "(2.5065::real)\<^sup>2 \<le> 2 * pi"
    using pi_bounds(1) by (simp add: power2_eq_square)
  then show "2.5065 \<le> sqrt (2 * pi)"
    by (rule real_le_rsqrt)
  have "2 * pi \<le> (2.5068::real)\<^sup>2"
    using pi_bounds(2) by (simp add: power2_eq_square)
  then show "sqrt (2 * pi) \<le> 2.5068"
    by (intro real_le_lsqrt) simp_all
qed

lemma INV_SQRT_2PI_value: "\<exists>c. INV_SQRT_2PI = Fin c \<and> 0.39893 \<le> c \<and> c \<le> 0.39895"
proof -
  obtain p where p: "to_double (Fin 3.1415927) = Fin p" "3.1415926 \<le> p" "p \<le> 3.1415928"
    using to_double_near[of "3.1415927" 4] by auto
  have "\<bar>p * 2\<bar> \<le> 7"
    using p(2,3) by simp
  then obtain a0 where a0: "to_double (Fin (p * 2)) = Fin a0" "6.283185 \<le> a0" "a0 \<le> 6.283186"
    using to_double_near[of "p * 2" 7] p(2,3) by auto
  have "\<bar>a0\<bar> \<le> 7"
    using a0(2,3) by simp
  then obtain b where b: "to_float (Fin a0) = Fin b" "6.28318 \<le> b" "b \<le> 6.28319"
    using to_float_near[of a0 7] a0(2,3) by auto
  have "(2.50662::real)\<^sup>2 \<le> b"
    using b(2) by (simp add: power2_eq_square)
  then have s1: "2.50662 \<le> sqrt b"
    by (rule real_le_rsqrt)
  have "b \<le> (2.50663::real)\<^sup>2"
    using b(3) by (simp add: power2_eq_square)
  then have s2: "sqrt b \<le> 2.50663"
    by (intro real_le_lsqrt) simp_all
  have "\<bar>sqrt b\<bar> \<le> 3"
    using s1 s2 by simp
  then obtain sb where sb: "to_float (Fin (sqrt b)) = Fin sb" "2.50661 \<le> sb" "sb \<le> 2.50664"
    using to_float_near[of "sqrt b" 3] s1 s2 by auto
  have sb0: "0 < sb"
    using sb(2) by simp
  have "0.39894 * sb \<le> 1" "1 \<le> 0.398946 * sb"
    using sb(2,3) by simp_all
  then have r: "0.39894 \<le> 1 / sb" "1 / sb \<le> 0.398946"
    using sb0 by (simp_all add: field_simps)
  have "\<bar>1 / sb\<bar> \<le> 1"
    using r by simp
  then obtain c where c: "to_float (Fin (1 / sb)) = Fin c" "0.39893 \<le> c" "c \<le> 0.39895"
    using to_float_near[of "1 / sb" 1] r by auto
  have b0: "0 \<le> b" and sbn: "sb \<noteq> 0"
    using b(2) sb0 by simp_all
  have "INV_SQRT_2PI = Fin c"
    unfolding INV_SQRT_2PI_def PI_def p(1) muld_def fl_Fin_simps(3) a0(1) b(1) sqrtf_def
      fl_Fin_simps(5)[OF b0] sb(1) divf_def fl_Fin_simps(4)[OF sbn] by (rule c(1))
  then show ?thesis
    using c(2,3) by blast
qed

text \<open>
  The height computed at \<open>x\<close>: the error of the exponent handed to \<^verbatim>\<open>expf\<close>, and
  from it the relative error of the result against the normal density.
\<close>

lemma exp_33: "exp (33::real) \<le> 2 ^ 66"
proof -
  have "exp (33::real) = exp 1 ^ 33"
    using exp_of_nat_mult[of 33 "1::real"] by simp
  also have "\<dots> \<le> 3 ^ 33"
    by (rule power_mono) (use exp_le in simp_all)
  also have "\<dots> \<le> (2::real) ^ 66"
    by simp
  finally show ?thesis .
qed

lemma abs_le_I: "y - e \<le> y' \<Longrightarrow> y' \<le> y + e \<Longrightarrow> \<bar>y' - y\<bar> \<le> (e::real)"
  by linarith

lemma abs_le_D: "\<bar>y' - y\<bar> \<le> e \<Longrightarrow> y - e \<le> y' \<and> y' \<le> y + (e::real)"
  by linarith

lemma abs_bound_I: "- b \<le> y \<Longrightarrow> y \<le> b \<Longrightarrow> \<bar>y\<bar> \<le> (b::real)"
  by linarith

lemma exp_range:
  assumes "\<bar>a\<bar> \<le> (33::real)"
  shows "1 / 2 ^ 66 \<le> exp a" "exp a \<le> 2 ^ 66"
proof -
  have "exp a \<le> exp 33"
    using assms by simp
  then show "exp a \<le> 2 ^ 66"
    using exp_33 by linarith
  have "exp (- a) \<le> exp 33"
    using assms by simp
  then have "exp (- a) \<le> 2 ^ 66"
    using exp_33 by linarith
  then have "exp a * exp (- a) \<le> exp a * 2 ^ 66"
    by (intro mult_left_mono) simp_all
  then have "1 \<le> exp a * 2 ^ 66"
    by (simp add: mult_exp_exp)
  then show "1 / 2 ^ 66 \<le> exp a"
    by (simp add: field_simps)
qed

lemma exp_near:
  fixes a A :: real
  assumes "A - 1 / 2 ^ 16 \<le> a" "a \<le> A + 1 / 2 ^ 16"
  shows "exp A * (1 - 1 / 2 ^ 16) \<le> exp a" "exp a \<le> exp A * (1 + 1 / 2 ^ 15)"
proof -
  have e: "exp a = exp A * exp (a - A)"
    using exp_add[of A "a - A"] by simp
  have "1 - 1 / 2 ^ 16 \<le> 1 + (a - A)"
    using assms by linarith
  also have "\<dots> \<le> exp (a - A)"
    by (rule exp_ge_add_one_self)
  finally have "exp A * (1 - 1 / 2 ^ 16) \<le> exp A * exp (a - A)"
    by (intro mult_left_mono) simp_all
  then show "exp A * (1 - 1 / 2 ^ 16) \<le> exp a"
    unfolding e .
  have "a - A \<le> 1 / 2 ^ 16"
    using assms by linarith
  then have "exp (a - A) \<le> exp (1 / 2 ^ 16)"
    by simp
  also have "\<dots> \<le> 1 + 1 / 2 ^ 16 + (1 / 2 ^ 16)\<^sup>2"
    by (rule exp_bound) simp_all
  also have "\<dots> \<le> 1 + 1 / 2 ^ 15"
    by (simp add: power2_eq_square)
  finally have "exp A * exp (a - A) \<le> exp A * (1 + 1 / 2 ^ 15)"
    by (intro mult_left_mono) simp_all
  then show "exp a \<le> exp A * (1 + 1 / 2 ^ 15)"
    unfolding e .
qed

lemma exponent_error:
  assumes d: "1 / 2 ^ 100 \<le> d" "d \<le> 2 ^ 50" and x: "\<bar>x - m\<bar> \<le> 8 * d"
  shows "\<exists>a. to_float (muld (Fin (- 0.5))
                 (mulf (divf (subf (Fin x) (Fin m)) (Fin d)) (divf (subf (Fin x) (Fin m)) (Fin d))))
              = Fin a
            \<and> - 0.5 * ((x - m) / d)\<^sup>2 - 1 / 2 ^ 16 \<le> a
            \<and> a \<le> - 0.5 * ((x - m) / d)\<^sup>2 + 1 / 2 ^ 16 \<and> \<bar>a\<bar> \<le> 33"
proof -
  have d0: "0 < d" "d \<noteq> 0"
    using d(1) by (smt (verit) divide_pos_pos zero_less_power)+
  define D where "D = x - m"
  define Z where "Z = D / d"
  have Db: "- (8 * d) \<le> D" "D \<le> 8 * d" "\<bar>D\<bar> \<le> 8 * d"
    using x by (simp_all add: D_def)
  have "- (8 * d) / d \<le> D / d" "D / d \<le> 8 * d / d"
    using Db(1,2) d0(1) by (intro divide_right_mono; simp)+
  then have Zb: "- 8 \<le> Z" "Z \<le> 8"
    using d0(2) by (simp_all add: Z_def)
  have "8 * d \<le> 2 ^ 127"
    using d(2) by simp
  then obtain t1 where t1: "to_float (Fin D) = Fin t1"
    "D - (8 * d / 2 ^ 24 + 1 / 2 ^ 150) \<le> t1" "t1 \<le> D + (8 * d / 2 ^ 24 + 1 / 2 ^ 150)"
    using to_float_near[OF Db(3)] by blast
  have "1 / 2 ^ 150 \<le> d / 2 ^ 24"
    using d(1) by simp
  then have e1: "D - 9 * d / 2 ^ 24 \<le> t1" "t1 \<le> D + 9 * d / 2 ^ 24"
    using t1(2,3) by simp_all
  define w where "w = t1 / d"
  have "(D - 9 * d / 2 ^ 24) / d \<le> t1 / d" "t1 / d \<le> (D + 9 * d / 2 ^ 24) / d"
    using e1 d0(1) by (intro divide_right_mono; simp)+
  moreover have "(D - 9 * d / 2 ^ 24) / d = Z - 9 / 2 ^ 24" "(D + 9 * d / 2 ^ 24) / d = Z + 9 / 2 ^ 24"
    using d0(2) by (simp_all add: Z_def diff_divide_distrib add_divide_distrib)
  ultimately have ew: "Z - 9 / 2 ^ 24 \<le> w" "w \<le> Z + 9 / 2 ^ 24"
    by (simp_all add: w_def)
  have wb: "\<bar>w\<bar> \<le> 9"
    by (rule abs_bound_I) (use ew Zb in simp_all)
  obtain z where z: "to_float (Fin w) = Fin z"
    "w - (9 / 2 ^ 24 + 1 / 2 ^ 150) \<le> z" "z \<le> w + (9 / 2 ^ 24 + 1 / 2 ^ 150)"
    using to_float_near[OF wb] by auto
  have ez2: "Z - 19 / 2 ^ 24 \<le> z" "z \<le> Z + 19 / 2 ^ 24"
    using z(2,3) ew by simp_all
  have ez: "\<bar>z - Z\<bar> \<le> 19 / 2 ^ 24"
    by (rule abs_le_I) (rule ez2)+
  have zb: "\<bar>z + Z\<bar> \<le> 17"
    by (rule abs_bound_I) (use ez2 Zb in simp_all)
  have "z * z - Z * Z = (z - Z) * (z + Z)"
    by (simp add: algebra_simps)
  then have "\<bar>z * z - Z * Z\<bar> = \<bar>z - Z\<bar> * \<bar>z + Z\<bar>"
    by (simp add: abs_mult)
  also have "\<dots> \<le> 19 / 2 ^ 24 * 17"
    using ez zb by (intro mult_mono) simp_all
  finally have sq: "\<bar>z * z - Z * Z\<bar> \<le> 19 / 2 ^ 24 * 17" .
  define Q where "Q = Z * Z"
  define P where "P = z * z"
  from abs_le_D[OF sq] have esq: "Q - 323 / 2 ^ 24 \<le> P" "P \<le> Q + 323 / 2 ^ 24"
    by (simp_all add: Q_def P_def)
  have "\<bar>Z\<bar> \<le> 8"
    by (rule abs_bound_I) (use Zb in simp_all)
  then have "\<bar>Z\<bar> * \<bar>Z\<bar> \<le> 8 * 8"
    by (intro mult_mono) simp_all
  then have ZZ: "Q \<le> 64" "0 \<le> Q"
    by (simp_all add: abs_mult[symmetric] Q_def)
  have zz: "\<bar>P\<bar> \<le> 65"
    by (rule abs_bound_I) (use esq ZZ in simp_all)
  obtain s where s: "to_float (Fin P) = Fin s"
    "P - (65 / 2 ^ 24 + 1 / 2 ^ 150) \<le> s" "s \<le> P + (65 / 2 ^ 24 + 1 / 2 ^ 150)"
    using to_float_near[OF zz] by auto
  have es: "Q - 389 / 2 ^ 24 \<le> s" "s \<le> Q + 389 / 2 ^ 24"
    using s(2,3) esq by simp_all
  have sb: "\<bar>- 0.5 * s\<bar> \<le> 33"
    by (rule abs_bound_I) (use es ZZ in simp_all)
  obtain a64 where a64: "to_double (Fin (- 0.5 * s)) = Fin a64"
    "- 0.5 * s - (33 / 2 ^ 53 + 1 / 2 ^ 150) \<le> a64" "a64 \<le> - 0.5 * s + (33 / 2 ^ 53 + 1 / 2 ^ 150)"
    using to_double_near[OF sb] by auto
  have ab: "\<bar>a64\<bar> \<le> 33"
    by (rule abs_bound_I) (use a64(2,3) es ZZ in simp_all)
  obtain a where a: "to_float (Fin a64) = Fin a"
    "a64 - (33 / 2 ^ 24 + 1 / 2 ^ 150) \<le> a" "a \<le> a64 + (33 / 2 ^ 24 + 1 / 2 ^ 150)"
    using to_float_near[OF ab] by auto
  have ea: "- 0.5 * Q - 1 / 2 ^ 16 \<le> a" "a \<le> - 0.5 * Q + 1 / 2 ^ 16"
    using a(2,3) a64(2,3) es by simp_all
  have a33: "\<bar>a\<bar> \<le> 33"
    by (rule abs_bound_I) (use ea ZZ in simp_all)
  have 1: "subf (Fin x) (Fin m) = Fin t1"
    unfolding subf_def fl_Fin_simps(2) using t1(1) by (simp add: D_def)
  have 2: "divf (Fin t1) (Fin d) = Fin z"
    unfolding divf_def fl_Fin_simps(4)[OF d0(2)] using z(1) by (simp add: w_def)
  have 3: "mulf (Fin z) (Fin z) = Fin s"
    unfolding mulf_def fl_Fin_simps(3) using s(1) by (simp add: P_def)
  have 4: "muld (Fin (- 0.5)) (Fin s) = Fin a64"
    unfolding muld_def fl_Fin_simps(3) by (rule a64(1))
  have "(x - m) / d = Z"
    by (simp add: Z_def D_def)
  then have Z2: "- 0.5 * ((x - m) / d)\<^sup>2 = - 0.5 * Q"
    by (simp add: power2_eq_square Q_def)
  show ?thesis
    unfolding 1 2 3 4 Z2 using a(1) ea a33 by blast
qed

lemma chain_lower:
  fixes g eA r q Ea E h c1 u1 e1 :: real
  assumes "0 \<le> g" "0 \<le> eA" "0 \<le> c1" "0 \<le> u1" "0 \<le> e1"
    and "c1 * g \<le> r" "r * u1 \<le> q" "eA * e1 \<le> Ea" "Ea * u1 \<le> E" "q * E * u1 \<le> h"
  shows "g * eA * (c1 * u1 * e1 * u1 * u1) \<le> h"
proof -
  have "c1 * g * u1 \<le> r * u1"
    using assms(6,4) by (rule mult_right_mono)
  then have 1: "c1 * g * u1 \<le> q"
    using assms(7) by linarith
  have "eA * e1 * u1 \<le> Ea * u1"
    using assms(8,4) by (rule mult_right_mono)
  then have 2: "eA * e1 * u1 \<le> E"
    using assms(9) by linarith
  have 3: "0 \<le> c1 * g * u1" "0 \<le> eA * e1 * u1"
    using assms(1-5) by simp_all
  have "0 \<le> q"
    using 1 3(1) by linarith
  then have "(c1 * g * u1) * (eA * e1 * u1) \<le> q * E"
    using 1 2 3(2) by (intro mult_mono) simp_all
  then have "(c1 * g * u1) * (eA * e1 * u1) * u1 \<le> q * E * u1"
    using assms(4) by (rule mult_right_mono)
  then have "(c1 * g * u1) * (eA * e1 * u1) * u1 \<le> h"
    using assms(10) by linarith
  moreover have "(c1 * g * u1) * (eA * e1 * u1) * u1 = g * eA * (c1 * u1 * e1 * u1 * u1)"
    by (simp add: algebra_simps)
  ultimately show ?thesis
    by simp
qed

lemma chain_upper:
  fixes g eA r q Ea E h c2 u2 e2 :: real
  assumes "0 \<le> g" "0 \<le> eA" "0 \<le> c2" "0 \<le> u2" "0 \<le> e2" "0 \<le> E"
    and "r \<le> c2 * g" "q \<le> r * u2" "Ea \<le> eA * e2" "E \<le> Ea * u2" "h \<le> q * E * u2"
  shows "h \<le> g * eA * (c2 * u2 * e2 * u2 * u2)"
proof -
  have "r * u2 \<le> c2 * g * u2"
    using assms(7,4) by (rule mult_right_mono)
  then have 1: "q \<le> c2 * g * u2"
    using assms(8) by linarith
  have "Ea * u2 \<le> eA * e2 * u2"
    using assms(9,4) by (rule mult_right_mono)
  then have 2: "E \<le> eA * e2 * u2"
    using assms(10) by linarith
  have 3: "0 \<le> c2 * g * u2"
    using assms(1-5) by simp
  have "q * E \<le> (c2 * g * u2) * (eA * e2 * u2)"
    using 1 2 3 assms(6) by (intro mult_mono) simp_all
  then have "q * E * u2 \<le> (c2 * g * u2) * (eA * e2 * u2) * u2"
    using assms(4) by (rule mult_right_mono)
  then have "h \<le> (c2 * g * u2) * (eA * e2 * u2) * u2"
    using assms(11) by linarith
  moreover have "(c2 * g * u2) * (eA * e2 * u2) * u2 = g * eA * (c2 * u2 * e2 * u2 * u2)"
    by (simp add: algebra_simps)
  ultimately show ?thesis
    by simp
qed

lemma height_at_density:
  assumes d: "1 / 2 ^ 100 \<le> d" "d \<le> 2 ^ 50" and x: "\<bar>x - m\<bar> \<le> 8 * d"
  shows "\<exists>h. height_at (Fin m) (Fin d) (Fin x) = Fin h
           \<and> \<bar>h - normal_density m d x\<bar> \<le> normal_density m d x / 1000"
proof -
  have d0: "0 < d" "d \<noteq> 0"
    using d(1) by (smt (verit) divide_pos_pos zero_less_power)+
  define A where "A = - 0.5 * ((x - m) / d)\<^sup>2"
  obtain a where a: "to_float (muld (Fin (- 0.5))
                 (mulf (divf (subf (Fin x) (Fin m)) (Fin d)) (divf (subf (Fin x) (Fin m)) (Fin d))))
              = Fin a"
    "A - 1 / 2 ^ 16 \<le> a" "a \<le> A + 1 / 2 ^ 16" "\<bar>a\<bar> \<le> 33"
    using exponent_error[OF assms] unfolding A_def by blast
  define Ea where "Ea = exp a"
  define eA where "eA = exp A"
  have Ea: "1 / 2 ^ 66 \<le> Ea"
    unfolding Ea_def by (rule exp_range[OF a(4)])
  have "A \<le> 0"
    by (simp add: A_def)
  then have "a \<le> 1"
    using a(3) by simp
  then have "exp a \<le> exp 1"
    by simp
  then have Ea3: "Ea \<le> 3"
    unfolding Ea_def using exp_le by linarith
  have near: "eA * (1 - 1 / 2 ^ 16) \<le> Ea" "Ea \<le> eA * (1 + 1 / 2 ^ 15)"
    unfolding Ea_def eA_def by (rule exp_near[OF a(2,3)])+
  have "1 / 2 ^ 126 \<le> Ea" "Ea \<le> 2 ^ 127"
    using Ea Ea3 by simp_all
  then obtain E where E: "to_float (Fin Ea) = Fin E"
    "Ea * (1 - 1 / 2 ^ 24) \<le> E" "E \<le> Ea * (1 + 1 / 2 ^ 24)"
    using to_float_rel[of Ea] by blast
  have E0: "0 \<le> E" "1 / 2 ^ 67 \<le> E" "E \<le> 4"
    using E(2,3) Ea Ea3 by simp_all
  obtain c where c: "INV_SQRT_2PI = Fin c" "0.39893 \<le> c" "c \<le> 0.39895"
    using INV_SQRT_2PI_value by blast
  define r where "r = c / d"
  have "1 / 2 ^ 52 * d \<le> c" "c \<le> 2 ^ 99 * d"
    using c(2,3) d by simp_all
  then have r: "1 / 2 ^ 52 \<le> r" "r \<le> 2 ^ 99"
    unfolding r_def using d0(1) by (simp_all only: pos_le_divide_eq pos_divide_le_eq)
  have "1 / 2 ^ 126 \<le> r" "r \<le> 2 ^ 127"
    using r by simp_all
  then obtain q where q: "to_float (Fin r) = Fin q"
    "r * (1 - 1 / 2 ^ 24) \<le> q" "q \<le> r * (1 + 1 / 2 ^ 24)"
    using to_float_rel[of r] by blast
  have q0: "1 / 2 ^ 53 \<le> q" "q \<le> 2 ^ 100"
    using q(2,3) r by simp_all
  have "1 / 2 ^ 53 * (1 / 2 ^ 67) \<le> q * E"
    using q0(1) E0(2) by (intro mult_mono) simp_all
  moreover have "q * E \<le> 2 ^ 100 * 4"
    using q0 E0 by (intro mult_mono) simp_all
  ultimately have "1 / 2 ^ 126 \<le> q * E" "q * E \<le> 2 ^ 127"
    by simp_all
  then obtain h where h: "to_float (Fin (q * E)) = Fin h"
    "q * E * (1 - 1 / 2 ^ 24) \<le> h" "h \<le> q * E * (1 + 1 / 2 ^ 24)"
    using to_float_rel[of "q * E"] by blast
  have 1: "expf (Fin a) = Fin E"
    unfolding expf_def fl_Fin_simps(6) using E(1) by (simp add: Ea_def)
  have 2: "divf INV_SQRT_2PI (Fin d) = Fin q"
    unfolding c(1) divf_def fl_Fin_simps(4)[OF d0(2)] using q(1) by (simp add: r_def)
  have 3: "mulf (Fin q) (Fin E) = Fin h"
    unfolding mulf_def fl_Fin_simps(3) by (rule h(1))
  have hh: "height_at (Fin m) (Fin d) (Fin x) = Fin h"
    unfolding height_at_def Let_def a(1) 1 2 3 ..
  define S where "S = sqrt (2 * pi)"
  have S: "2.5065 \<le> S" "S \<le> 2.5068"
    unfolding S_def by (rule sqrt_2pi_bounds)+
  have S0: "0 < S"
    using S(1) by simp
  define g where "g = 1 / (d * S)"
  have g0: "0 \<le> g"
    using d0 S0 by (simp add: g_def)
  have "0.39893 * 2.5065 \<le> c * S"
    using c(2) S(1) by (intro mult_mono) simp_all
  then have "0.9999 \<le> c * S"
    by simp
  then have "0.9999 / S \<le> c"
    using S0 by (simp add: pos_divide_le_eq)
  then have "0.9999 / S / d \<le> c / d"
    using d0(1) by (intro divide_right_mono) simp_all
  then have lo: "0.9999 * g \<le> r"
    by (simp add: g_def r_def ac_simps)
  have "c * S \<le> 0.39895 * 2.5068"
    using c(2,3) S by (intro mult_mono) simp_all
  then have "c * S \<le> 1.0001"
    by simp
  then have "c \<le> 1.0001 / S"
    using S0 by (simp add: pos_le_divide_eq)
  then have "c / d \<le> 1.0001 / S / d"
    using d0(1) by (intro divide_right_mono) simp_all
  then have hi: "r \<le> 1.0001 * g"
    by (simp add: g_def r_def ac_simps)
  have eA0: "0 \<le> eA"
    by (simp add: eA_def)
  have nd: "normal_density m d x = g * eA"
    by (simp add: normal_density_def g_def eA_def A_def S_def)
  define phi where "phi = g * eA"
  have phi0: "0 \<le> phi"
    using g0 eA0 by (simp add: phi_def)
  define K1 :: real where
    "K1 = 0.9999 * (1 - 1 / 2 ^ 24) * (1 - 1 / 2 ^ 16) * (1 - 1 / 2 ^ 24) * (1 - 1 / 2 ^ 24)"
  define K2 :: real where
    "K2 = 1.0001 * (1 + 1 / 2 ^ 24) * (1 + 1 / 2 ^ 15) * (1 + 1 / 2 ^ 24) * (1 + 1 / 2 ^ 24)"
  have K: "0.999 \<le> K1" "K2 \<le> 1.001"
    by (simp_all add: K1_def K2_def)
  have c1: "phi * K1 \<le> h"
    unfolding phi_def K1_def using g0 eA0 lo q(2) near(1) E(2) h(2)
    by (intro chain_lower) simp_all
  have c2: "h \<le> phi * K2"
    unfolding phi_def K2_def using g0 eA0 E0(1) hi q(3) near(2) E(3) h(3)
    by (intro chain_upper) simp_all
  have "phi * 0.999 \<le> phi * K1" "phi * K2 \<le> phi * 1.001"
    using K phi0 by (intro mult_left_mono; simp)+
  then have "phi - phi / 1000 \<le> h" "h \<le> phi + phi / 1000"
    using c1 c2 by simp_all
  then have "\<bar>h - phi\<bar> \<le> phi / 1000"
    by (rule abs_le_I)
  then have "\<bar>h - g * eA\<bar> \<le> g * eA / 1000"
    by (simp add: phi_def)
  then show ?thesis
    using hh unfolding nd by blast
qed

text \<open>
  For a finite mean and a deviation in that range no height is negative, infinite or a NaN,
  so the mass never becomes a NaN.
\<close>

lemma rnd_not_NaN: "v \<noteq> NaN \<Longrightarrow> rnd F v \<noteq> NaN"
  by (cases v) (simp_all add: rnd_def Let_def)

lemma round_fin_nonpos: "x \<le> 0 \<Longrightarrow> round_fin F x \<le> 0"
  using round_fin_nonneg[of "- x" F] by (simp add: round_fin_minus)

lemma rnd_nonneg:
  assumes "0 \<le> x"
  shows "rnd F (Fin x) = PInf \<or> (\<exists>y. rnd F (Fin x) = Fin y \<and> 0 \<le> y)"
  using round_fin_nonneg[OF assms, of F] by (simp add: rnd_def Let_def)

lemma rnd_nonpos:
  assumes "x \<le> 0"
  shows "rnd F (Fin x) = NInf \<or> (\<exists>y. rnd F (Fin x) = Fin y \<and> y \<le> 0)"
proof -
  have y: "round_fin F x \<le> 0"
    using assms by (rule round_fin_nonpos)
  have "(0::real) < 2 powi (emax F + 1)"
    by simp
  then have "2 powi (emax F + 1) \<le> \<bar>round_fin F x\<bar> \<Longrightarrow> round_fin F x < 0"
    using y by linarith
  then show ?thesis
    using y by (auto simp add: rnd_def Let_def)
qed

lemma nonneg_fl_iff: "nonneg_fl v \<longleftrightarrow> v = PInf \<or> (\<exists>w. v = Fin w \<and> 0 \<le> w)"
  by (cases v) (simp_all add: nonneg_fl_def)

lemma square_nonneg_fl:
  assumes "z \<noteq> NaN"
  shows "nonneg_fl (mulf z z)"
proof (cases z)
  case (Fin r)
  have "0 \<le> r * r"
    by simp
  then show ?thesis
    using rnd_nonneg[of "r * r" binary32]
    by (simp add: Fin mulf_def fl_Fin_simps to_float_def nonneg_fl_iff)
qed (use assms in \<open>simp_all add: mulf_def fl_mul_def fl_sign_def inf_of_def to_float_special
    nonneg_fl_iff\<close>)

lemma exponent_nonpos:
  assumes "nonneg_fl s"
  shows "to_float (muld (Fin (- 0.5)) s) = NInf
           \<or> (\<exists>a. to_float (muld (Fin (- 0.5)) s) = Fin a \<and> a \<le> 0)"
proof (cases "s = PInf")
  case True
  then show ?thesis
    by (simp add: muld_def fl_mul_def fl_sign_def inf_of_def to_double_special to_float_special)
next
  case False
  then obtain w where w: "s = Fin w" "0 \<le> w"
    using assms by (auto simp: nonneg_fl_iff)
  have "- 0.5 * w \<le> 0"
    using w(2) by simp
  from rnd_nonpos[OF this, of binary64] show ?thesis
  proof
    assume "rnd binary64 (Fin (- 0.5 * w)) = NInf"
    then show ?thesis
      by (simp add: w(1) muld_def fl_Fin_simps to_double_def to_float_special)
  next
    assume "\<exists>y. rnd binary64 (Fin (- 0.5 * w)) = Fin y \<and> y \<le> 0"
    then obtain y where y: "rnd binary64 (Fin (- 0.5 * w)) = Fin y" "y \<le> 0"
      by blast
    have m: "muld (Fin (- 0.5)) s = Fin y"
      using y(1) by (simp add: w(1) muld_def fl_Fin_simps to_double_def)
    show ?thesis
      unfolding m using rnd_nonpos[OF y(2), of binary32] by (simp add: to_float_def)
  qed
qed

lemma expf_unit:
  assumes "v = NInf \<or> (\<exists>a. v = Fin a \<and> a \<le> 0)"
  shows "\<exists>E. expf v = Fin E \<and> 0 \<le> E \<and> E \<le> 1"
proof (cases "v = NInf")
  case True
  then show ?thesis
    by (simp add: expf_def fl_exp_def to_float_0)
next
  case False
  then obtain a where a: "v = Fin a" "a \<le> 0"
    using assms by blast
  have e: "0 \<le> exp a" "exp a \<le> 1"
    using a(2) by simp_all
  have r: "representable binary32 (of_int 0 * 2 powi 0)" "representable binary32 (of_int 1 * 2 powi 0)"
    by (rule repr32; simp)+
  have "\<exists>y. to_float (Fin (exp a)) = Fin y \<and> of_int 0 * 2 powi 0 \<le> y \<and> y \<le> of_int 1 * 2 powi 0"
    using r e by (intro to_float_between) simp_all
  then show ?thesis
    by (simp add: a(1) expf_def fl_Fin_simps)
qed

lemma z_not_NaN:
  assumes "x \<noteq> NaN" "0 < d"
  shows "divf (subf x (Fin m)) (Fin d) \<noteq> NaN"
proof -
  have s: "subf x (Fin m) \<noteq> NaN"
    unfolding subf_def to_float_def
    by (rule rnd_not_NaN) (use assms(1) in \<open>cases x; simp add: fl_sub_def fl_neg_def fl_add_def\<close>)
  show ?thesis
    unfolding divf_def to_float_def
    by (rule rnd_not_NaN)
      (use s assms(2) in \<open>cases "subf x (Fin m)"; simp add: fl_div_def fl_sign_def inf_of_def\<close>)
qed

lemma height_finite:
  assumes d: "1 / 2 ^ 100 \<le> d" "d \<le> 2 ^ 50" and x: "x \<noteq> NaN"
  shows "\<exists>h. height_at (Fin m) (Fin d) x = Fin h \<and> 0 \<le> h"
proof -
  have d0: "0 < d" "d \<noteq> 0"
    using d(1) by (smt (verit) divide_pos_pos zero_less_power)+
  define z where "z = divf (subf x (Fin m)) (Fin d)"
  have "z \<noteq> NaN"
    unfolding z_def using x d0(1) by (rule z_not_NaN)
  then have "nonneg_fl (mulf z z)"
    by (rule square_nonneg_fl)
  then have "to_float (muld (Fin (- 0.5)) (mulf z z)) = NInf
           \<or> (\<exists>a. to_float (muld (Fin (- 0.5)) (mulf z z)) = Fin a \<and> a \<le> 0)"
    by (rule exponent_nonpos)
  then obtain E where E: "expf (to_float (muld (Fin (- 0.5)) (mulf z z))) = Fin E" "0 \<le> E" "E \<le> 1"
    using expf_unit by blast
  obtain c where c: "INV_SQRT_2PI = Fin c" "0.39893 \<le> c" "c \<le> 0.39895"
    using INV_SQRT_2PI_value by blast
  define r where "r = c / d"
  have "1 / 2 ^ 52 * d \<le> c" "c \<le> 2 ^ 99 * d"
    using c(2,3) d by simp_all
  then have r: "1 / 2 ^ 52 \<le> r" "r \<le> 2 ^ 99"
    unfolding r_def using d0(1) by (simp_all only: pos_le_divide_eq pos_divide_le_eq)
  have "1 / 2 ^ 126 \<le> r" "r \<le> 2 ^ 127"
    using r by simp_all
  then obtain q where q: "to_float (Fin r) = Fin q"
    "r * (1 - 1 / 2 ^ 24) \<le> q" "q \<le> r * (1 + 1 / 2 ^ 24)"
    using to_float_rel[of r] by blast
  have q0: "0 \<le> q" "q \<le> 2 ^ 100"
    using q(2,3) r by simp_all
  have qd: "divf INV_SQRT_2PI (Fin d) = Fin q"
    unfolding c(1) divf_def fl_Fin_simps(4)[OF d0(2)] using q(1) by (simp add: r_def)
  have "q * E \<le> 2 ^ 100 * 1"
    using q0 E(2,3) by (intro mult_mono) simp_all
  then have qE: "0 \<le> q * E" "q * E \<le> 2 ^ 100"
    using q0(1) E(2) by simp_all
  have rr: "representable binary32 (of_int 0 * 2 powi 0)" "representable binary32 (of_int 1 * 2 powi 100)"
    by (rule repr32; simp)+
  have "\<exists>y. to_float (Fin (q * E)) = Fin y \<and> of_int 0 * 2 powi 0 \<le> y \<and> y \<le> of_int 1 * 2 powi 100"
    using rr qE by (intro to_float_between) simp_all
  then obtain h where h: "to_float (Fin (q * E)) = Fin h" "0 \<le> h"
    by auto
  have e3: "mulf (Fin q) (Fin E) = Fin h"
    unfolding mulf_def fl_Fin_simps(3) by (rule h(1))
  have "height_at (Fin m) (Fin d) x = Fin h"
    unfolding height_at_def Let_def z_def[symmetric] E(1) qd e3 ..
  then show ?thesis
    using h(2) by blast
qed

lemma scan_not_NaN:
  assumes d: "1 / 2 ^ 100 \<le> d" "d \<le> 2 ^ 50"
  shows "rieman_x (Fin m) (Fin d) k \<noteq> NaN"
proof (induction k)
  case 0
  have "mulf (int_to_float 5) (Fin d) \<noteq> NaN"
    unfolding int_to_float_5 mulf_def fl_Fin_simps(3) to_float_def by (rule rnd_not_NaN) simp
  then have "fl_sub (Fin m) (mulf (int_to_float 5) (Fin d)) \<noteq> NaN"
    by (cases "mulf (int_to_float 5) (Fin d)") (simp_all add: fl_sub_def fl_neg_def fl_add_def)
  then show ?case
    unfolding rieman_x_0 subf_def to_float_def by (rule rnd_not_NaN)
next
  case (Suc k)
  obtain s where s: "rieman_step_size = Fin s"
    using step_size_bounds unfolding rieman_step_size_def by blast
  have "fl_add (rieman_x (Fin m) (Fin d) k) (Fin s) \<noteq> NaN"
    using Suc.IH by (cases "rieman_x (Fin m) (Fin d) k") (simp_all add: fl_add_def)
  then show ?case
    unfolding rieman_x_Suc s addf_def to_float_def by (rule rnd_not_NaN)
qed

lemma mass_stays_nonneg_fl:
  assumes d: "1 / 2 ^ 100 \<le> d" "d \<le> 2 ^ 50"
  shows "nonneg_fl (rieman_mass (Fin m) (Fin d) k)"
proof (induction k)
  case 0
  show ?case
    by (simp add: rieman_mass_0 nonneg_fl_iff)
next
  case (Suc k)
  obtain s where s: "rieman_step_size = Fin s" "1 / 16384 \<le> s"
    using step_size_bounds unfolding rieman_step_size_def by blast
  obtain h where h: "height_at (Fin m) (Fin d) (rieman_x (Fin m) (Fin d) k) = Fin h" "0 \<le> h"
    using height_finite[OF d scan_not_NaN[OF d]] by blast
  have "0 \<le> h * s"
    using h(2) s(2) by simp
  then have p: "nonneg_fl (mulf (Fin h) (Fin s))"
    using rnd_nonneg[of "h * s" binary32]
    by (simp add: mulf_def fl_Fin_simps to_float_def nonneg_fl_iff)
  have "nonneg_fl (addf v p)" if vp: "nonneg_fl v" "nonneg_fl p" for v p
  proof -
    consider "v = PInf \<or> p = PInf" | w y where "v = Fin w" "0 \<le> w" "p = Fin y" "0 \<le> y"
      using vp unfolding nonneg_fl_iff by blast
    then show ?thesis
    proof cases
      case 1
      then show ?thesis
        using vp by (auto simp: nonneg_fl_iff addf_def fl_add_def to_float_special)
    next
      case 2
      have "0 \<le> w + y"
        using 2(2,4) by simp
      then show ?thesis
        using rnd_nonneg[of "w + y" binary32]
        by (simp add: 2(1,3) addf_def fl_Fin_simps to_float_def nonneg_fl_iff)
    qed
  qed
  from this[OF Suc.IH p] show ?case
    unfolding rieman_mass_Suc h(1) s(1) .
qed

lemma mass_not_NaN:
  assumes "1 / 2 ^ 100 \<le> d" "d \<le> 2 ^ 50"
  shows "rieman_mass (Fin m) (Fin d) k \<noteq> NaN"
  using mass_stays_nonneg_fl[OF assms, of m k] by (auto simp: nonneg_fl_iff)

subsection \<open>The value the analytic estimator stores\<close>

text \<open>
  C3, as the code has it. Whenever \<^verbatim>\<open>rieman\<close> returns, it has summed \<open>N \<ge> 1\<close> rectangles:
  the scan starts at \<open>mean - 5 * deviation\<close> and advances by the \<^verbatim>\<open>float\<close> value of the
  constant 0.0001, and pass \<open>k\<close> adds the area of the rectangle whose height is the density the
  program evaluates at its left endpoint \<open>x\<^sub>k\<close>. \<open>N\<close> is the first count at which the loop
  test \<^verbatim>\<open>bucket < 0.05\<close> fails: the mass of the first \<open>N\<close> rectangles is 0.05 or more, or
  it is a NaN, which it never is for a finite mean and a deviation from \<open>2\<^sup>-\<^sup>1\<^sup>0\<^sup>0\<close> to
  \<open>2\<^sup>5\<^sup>0\<close>. The value stored is \<open>x\<^sub>N\<close>, the \<^verbatim>\<open>x\<close> reached together with that mass (the
  right edge of the last rectangle summed), and no later one. For a finite mean, a deviation
  in that range and an \<open>x\<close> within 8 deviations of the mean, the height the program
  evaluates is within one part in a thousand of the normal density.
\<close>

theorem rieman_stores_first_crossing:
  assumes "rieman data mean' deviation adress = Some a"
  shows "\<exists>N. 0 < N
            \<and> (\<forall>k<N. fl_lt (rieman_mass mean' deviation k) target_mass)
            \<and> (rieman_mass mean' deviation N = NaN
                 \<or> fl_le target_mass (rieman_mass mean' deviation N))
            \<and> (\<forall>m d. mean' = Fin m \<and> deviation = Fin d \<and> 1 / 2 ^ 100 \<le> d \<and> d \<le> 2 ^ 50 \<longrightarrow>
                   fl_le target_mass (rieman_mass mean' deviation N))
            \<and> a = adress\<lparr>worst_case_rieman := rieman_x mean' deviation N\<rparr>
            \<and> rieman_x mean' deviation 0 = subf mean' (mulf (int_to_float 5) deviation)
            \<and> rieman_mass mean' deviation 0 = Fin 0
            \<and> rieman_step_size = to_float (to_double (Fin 0.0001))
            \<and> (\<forall>k. rieman_x mean' deviation (Suc k)
                      = addf (rieman_x mean' deviation k) rieman_step_size
                   \<and> rieman_mass mean' deviation (Suc k)
                      = addf (rieman_mass mean' deviation k)
                          (mulf (height_at mean' deviation (rieman_x mean' deviation k))
                             rieman_step_size))
            \<and> (\<forall>m d x. 1 / 2 ^ 100 \<le> d \<and> d \<le> 2 ^ 50 \<and> \<bar>x - m\<bar> \<le> 8 * d \<longrightarrow>
                   (\<exists>h. height_at (Fin m) (Fin d) (Fin x) = Fin h
                       \<and> \<bar>h - normal_density m d x\<bar> \<le> normal_density m d x / 1000))"
proof -
  obtain N where N: "0 < N" "\<forall>k<N. fl_lt (rieman_mass mean' deviation k) target_mass"
    "rieman_mass mean' deviation N = NaN \<or> fl_le target_mass (rieman_mass mean' deviation N)"
    "a = adress\<lparr>worst_case_rieman := rieman_x mean' deviation N\<rparr>"
    using rieman_stores_first[OF assms] by blast
  have f: "\<forall>m d. mean' = Fin m \<and> deviation = Fin d \<and> 1 / 2 ^ 100 \<le> d \<and> d \<le> 2 ^ 50 \<longrightarrow>
                   fl_le target_mass (rieman_mass mean' deviation N)"
    using N(3) mass_not_NaN by blast
  have s: "rieman_step_size = to_float (to_double (Fin 0.0001))"
    by (simp add: rieman_step_size_def)
  have r: "\<forall>k. rieman_x mean' deviation (Suc k)
                      = addf (rieman_x mean' deviation k) rieman_step_size
                   \<and> rieman_mass mean' deviation (Suc k)
                      = addf (rieman_mass mean' deviation k)
                          (mulf (height_at mean' deviation (rieman_x mean' deviation k))
                             rieman_step_size)"
    using rieman_x_Suc rieman_mass_Suc by blast
  have h: "\<forall>m d x. 1 / 2 ^ 100 \<le> d \<and> d \<le> 2 ^ 50 \<and> \<bar>x - m\<bar> \<le> 8 * d \<longrightarrow>
                   (\<exists>h. height_at (Fin m) (Fin d) (Fin x) = Fin h
                       \<and> \<bar>h - normal_density m d x\<bar> \<le> normal_density m d x / 1000)"
    using height_at_density by blast
  show ?thesis
    by (rule exI[of _ N]) (intro conjI N f rieman_x_0 rieman_mass_0 s r h)
qed

theorem rieman_stores_first_crossing_witness:
  "\<forall>data adress.
      rieman data (Fin 0) (Fin tiny_deviation) adress
        = Some (adress\<lparr>worst_case_rieman := rieman_x (Fin 0) (Fin tiny_deviation) 1\<rparr>)
      \<and> fl_lt (rieman_mass (Fin 0) (Fin tiny_deviation) 0) target_mass
      \<and> fl_le target_mass (rieman_mass (Fin 0) (Fin tiny_deviation) 1)
      \<and> rieman_x (Fin 0) (Fin tiny_deviation) 0 = Fin (- (5 * tiny_deviation))
      \<and> rieman_x (Fin 0) (Fin tiny_deviation) 1
           = addf (rieman_x (Fin 0) (Fin tiny_deviation) 0) rieman_step_size
      \<and> (\<exists>h. height_at (Fin 0) (Fin tiny_deviation) (Fin (- (5 * tiny_deviation))) = Fin h
             \<and> \<bar>h - normal_density 0 tiny_deviation (- (5 * tiny_deviation))\<bar>
                 \<le> normal_density 0 tiny_deviation (- (5 * tiny_deviation)) / 1000)"
proof (intro allI)
  fix data adress
  let ?m = "Fin 0" and ?d = "Fin tiny_deviation"
  obtain x1 w where run: "rieman_x ?m ?d 0 = Fin (- (5 * tiny_deviation))"
    "rieman_mass ?m ?d 1 = Fin w" "8 \<le> w"
    using tiny_run by blast
  obtain t where t: "target_mass = Fin t" "t \<le> 1 / 16"
    using target_mass_bounds by blast
  have m1: "\<not> fl_lt (rieman_mass ?m ?d 1) target_mass" "rieman_mass ?m ?d 1 \<noteq> NaN"
    unfolding run(2) t(1) using run(3) t(2) by (simp_all add: fl_Fin_simps)
  obtain N where N: "0 < N" "\<forall>k<N. fl_lt (rieman_mass ?m ?d k) target_mass"
    "rieman_mass ?m ?d N = NaN \<or> fl_le target_mass (rieman_mass ?m ?d N)"
    and x1: "rieman_x ?m ?d (Suc 0) = addf (rieman_x ?m ?d 0) rieman_step_size"
    and h: "\<forall>m d x. 1 / 2 ^ 100 \<le> d \<and> d \<le> 2 ^ 50 \<and> \<bar>x - m\<bar> \<le> 8 * d \<longrightarrow>
                   (\<exists>h. height_at (Fin m) (Fin d) (Fin x) = Fin h
                       \<and> \<bar>h - normal_density m d x\<bar> \<le> normal_density m d x / 1000)"
    using rieman_stores_first_crossing[OF tiny_returns[of data adress]] by blast
  have "\<not> 1 < N"
    using N(2) m1(1) by blast
  then have "N = 1"
    using N(1) by simp
  then have le: "fl_le target_mass (rieman_mass ?m ?d 1)"
    using N(3) m1(2) by simp
  have lt: "fl_lt (rieman_mass ?m ?d 0) target_mass"
    using zero_below_target by (simp add: rieman_mass_0)
  have hh: "\<exists>h. height_at (Fin 0) (Fin tiny_deviation) (Fin (- (5 * tiny_deviation))) = Fin h
             \<and> \<bar>h - normal_density 0 tiny_deviation (- (5 * tiny_deviation))\<bar>
                 \<le> normal_density 0 tiny_deviation (- (5 * tiny_deviation)) / 1000"
    using h tiny_in_range by blast
  have x1': "rieman_x ?m ?d 1 = addf (rieman_x ?m ?d 0) rieman_step_size"
    using x1 by simp
  show "rieman data ?m ?d adress = Some (adress\<lparr>worst_case_rieman := rieman_x ?m ?d 1\<rparr>)
      \<and> fl_lt (rieman_mass ?m ?d 0) target_mass
      \<and> fl_le target_mass (rieman_mass ?m ?d 1)
      \<and> rieman_x ?m ?d 0 = Fin (- (5 * tiny_deviation))
      \<and> rieman_x ?m ?d 1 = addf (rieman_x ?m ?d 0) rieman_step_size
      \<and> (\<exists>h. height_at (Fin 0) (Fin tiny_deviation) (Fin (- (5 * tiny_deviation))) = Fin h
             \<and> \<bar>h - normal_density 0 tiny_deviation (- (5 * tiny_deviation))\<bar>
                 \<le> normal_density 0 tiny_deviation (- (5 * tiny_deviation)) / 1000)"
    by (intro conjI tiny_returns lt le run(1) x1' hh)
qed

text \<open>
  The claim itself fails for the deviation plus infinity, a float value above 0: the scan
  starts at minus infinity, the first height is a NaN and so is the mass from the first pass
  on, the loop test fails at once and minus infinity is stored, although the mass never
  reaches 0.05.
\<close>

theorem rieman_infinite_deviation_counterexample:
  "fl_lt (Fin 0) PInf
     \<and> (\<forall>data adress. rieman data (Fin 0) PInf adress = Some (adress\<lparr>worst_case_rieman := NInf\<rparr>))
     \<and> rieman_mass (Fin 0) PInf 1 = NaN
     \<and> (\<forall>k. \<not> fl_le target_mass (rieman_mass (Fin 0) PInf k))"
  using inf_returns inf_mass[of 0] inf_never_reaches by (simp add: fl_lt_def)

subsection \<open>Moments\<close>

lemma stand_dev_loop_foldl:
  "0 \<le> i \<Longrightarrow> i \<le> cnt \<Longrightarrow> cnt = int (length data) \<Longrightarrow>
   stand_dev_loop data cnt m i t
     = foldl (\<lambda>t x. addd t (mulf (subf x m) (subf x m))) t (drop (nat i) data)"
proof (induction data cnt m i t rule: stand_dev_loop.induct)
  case (1 data cnt m i t)
  show ?case
  proof (cases "i < cnt")
    case True
    then have d: "drop (nat i) data = data ! nat i # drop (nat (i + 1)) data"
      using 1(2,4) by (simp add: Cons_nth_drop_Suc nat_add_distrib)
    show ?thesis
      using True 1 by (subst stand_dev_loop.simps) (simp add: d)
  next
    case False
    then show ?thesis
      using 1(3,4) by (subst stand_dev_loop.simps) simp
  qed
qed

lemma mean_loop_foldl:
  "0 \<le> i \<Longrightarrow> i \<le> cnt \<Longrightarrow> cnt = int (length data) \<Longrightarrow>
   mean_loop data cnt i t = foldl addd t (drop (nat i) data)"
proof (induction data cnt i t rule: mean_loop.induct)
  case (1 data cnt i t)
  show ?case
  proof (cases "i < cnt")
    case True
    then have d: "drop (nat i) data = data ! nat i # drop (nat (i + 1)) data"
      using 1(2,4) by (simp add: Cons_nth_drop_Suc nat_add_distrib)
    show ?thesis
      using True 1 by (subst mean_loop.simps) (simp add: d)
  next
    case False
    then show ?thesis
      using 1(3,4) by (subst mean_loop.simps) simp
  qed
qed

lemma stand_dev_few: "cnt < 2 \<Longrightarrow> stand_dev data cnt m = Fin 0"
  by (simp add: stand_dev_def)

lemma mean_empty: "mean data 0 = Fin 0"
  by (simp add: mean_def)

lemma stand_dev_bessel:
  assumes "2 \<le> cnt" "cnt = int (length data)"
  shows "stand_dev data cnt m
           = to_float (sqrtd (divd (sum_sq_dev data m) (int_to_double (cnt - 1))))"
  using assms stand_dev_loop_foldl[of 0 cnt data m "Fin 0"]
  by (simp add: stand_dev_def sum_sq_dev_def Let_def)

lemma mean_sum:
  assumes "0 < cnt" "cnt = int (length data)"
  shows "mean data cnt = to_float (divd (sum_double data) (int_to_double cnt))"
  using assms mean_loop_foldl[of 0 cnt data "Fin 0"]
  by (simp add: mean_def sum_double_def Let_def)

lemma to_float_int: "\<bar>k\<bar> < 2 ^ 24 \<Longrightarrow> to_float (Fin (of_int k)) = Fin (of_int k)"
proof -
  assume k: "\<bar>k\<bar> < 2 ^ 24"
  then have "\<bar>real_of_int k\<bar> < 2 ^ 24"
    by (metis of_int_abs of_int_less_iff of_int_numeral of_int_power)
  then have "\<bar>real_of_int k\<bar> < 2 ^ 128"
    by (rule less_trans) simp
  then show ?thesis
    using to_float_exact[OF repr32[of k 0]] k by simp
qed

lemma to_double_int: "\<bar>k\<bar> < 2 ^ 53 \<Longrightarrow> to_double (Fin (of_int k)) = Fin (of_int k)"
proof -
  assume k: "\<bar>k\<bar> < 2 ^ 53"
  then have "\<bar>real_of_int k\<bar> < 2 ^ 53"
    by (metis of_int_abs of_int_less_iff of_int_numeral of_int_power)
  then have "\<bar>real_of_int k\<bar> < 2 ^ 1024"
    by (rule less_trans) simp
  then show ?thesis
    using to_double_exact[OF repr64[of k 0]] k by simp
qed

lemma small_ints:
  "to_float (Fin (- 3)) = Fin (- 3)" "to_float (Fin 3) = Fin 3" "to_float (Fin 9) = Fin 9"
  "to_double (Fin 9) = Fin 9" "to_double (Fin 18) = Fin 18" "to_double (Fin 3) = Fin 3"
  using to_float_int[of "- 3"] to_float_int[of 3] to_float_int[of 9]
    to_double_int[of 9] to_double_int[of 18] to_double_int[of 3]
  by simp_all

lemma sqrt_9: "sqrt 9 = 3"
  using real_sqrt_abs[of 3] by simp

lemma sample_sum_sq: "sum_sq_dev [Fin 0, Fin 3, Fin 6] (Fin 3) = Fin 18"
  by (simp add: sum_sq_dev_def subf_def mulf_def addd_def fl_Fin_simps small_ints
      to_float_0 to_double_0)

lemma sample_stand_dev:
  "to_float (sqrtd (divd (Fin 18) (int_to_double 2))) = Fin 3"
  by (simp add: divd_def sqrtd_def int_to_double_def fl_Fin_simps small_ints sqrt_9)



text \<open>
  C7. \<^verbatim>\<open>mean\<close> returns 0 for a count of 0; \<^verbatim>\<open>stand_dev\<close> returns 0 for every count
  below 2; for a series of two or more observations \<^verbatim>\<open>stand_dev\<close> is the square root of
  the sum of the squared deviations from the mean it is given, divided by the count minus
  one.
\<close>

theorem moments_edge_cases:
  "mean data 0 = Fin 0
   \<and> (cnt < 2 \<longrightarrow> stand_dev data cnt m = Fin 0)
   \<and> (2 \<le> cnt \<and> cnt = int (length data) \<longrightarrow>
        stand_dev data cnt m
          = to_float (sqrtd (divd (sum_sq_dev data m) (int_to_double (cnt - 1)))))"
  using mean_empty stand_dev_few stand_dev_bessel by blast

theorem moments_edge_cases_witness:
  "mean [] 0 = Fin 0
   \<and> stand_dev [Fin 6] 1 (Fin 6) = Fin 0
   \<and> stand_dev [Fin 0, Fin 3, Fin 6] 3 (Fin 3) = Fin 3"
  using moments_edge_cases[of "[]" 1 "Fin 6"] moments_edge_cases[of "[Fin 6]" 1 "Fin 6"]
    moments_edge_cases[of "[Fin 0, Fin 3, Fin 6]" 3 "Fin 3"]
  by (simp add: sample_sum_sq sample_stand_dev)


subsection \<open>Identical observations\<close>

lemma fl_special_simps:
  "fl_add PInf PInf = PInf" "fl_add (Fin x) PInf = PInf" "fl_sub PInf PInf = NaN"
  "fl_mul NaN b = NaN" "fl_add a NaN = NaN" "fl_div NaN b = NaN" "fl_sqrt NaN = NaN"
  "y \<noteq> 0 \<Longrightarrow> fl_div PInf (Fin y) = inf_of (sgn y)"
  by (cases a; cases b; simp add: fl_add_def fl_sub_def fl_neg_def fl_mul_def fl_div_def
      fl_sqrt_def fl_sign_def)+

lemma mean_inf: "mean [PInf, PInf] 2 = PInf"
  by (simp add: mean_sum sum_double_def addd_def fl_special_simps to_double_special divd_def
      int_to_double_def inf_of_def to_float_special)

lemma stand_dev_inf: "stand_dev [PInf, PInf] 2 PInf = NaN"
  by (simp add: stand_dev_bessel sum_sq_dev_def subf_def fl_special_simps to_float_special mulf_def
      addd_def to_double_special divd_def sqrtd_def)

lemma representable_32_64:
  assumes "representable binary32 v"
  shows "representable binary64 v"
proof -
  obtain m e where v: "v = of_int m * 2 powi e" "\<bar>m\<bar> < 2 ^ 24" "- 149 \<le> e"
    using assms by (auto simp: representable_def binary32_def)
  have "\<bar>m\<bar> < 2 ^ 53"
    using v(2) by (rule less_trans) simp
  then show ?thesis
    unfolding v(1) using v(3) by (intro repr64) simp_all
qed

lemma multiple_representable:
  assumes "representable binary32 v" "k \<le> 2 ^ 29"
  shows "representable binary64 (real k * v)"
proof -
  obtain m e where v: "v = of_int m * 2 powi e" "\<bar>m\<bar> < 2 ^ 24" "- 149 \<le> e"
    using assms(1) by (auto simp: representable_def binary32_def)
  have "\<bar>int k * m\<bar> = int k * \<bar>m\<bar>"
    by (simp add: abs_mult)
  also have "\<dots> \<le> 2 ^ 29 * \<bar>m\<bar>"
    using assms(2) by (intro mult_right_mono) simp_all
  also have "\<dots> < 2 ^ 29 * 2 ^ 24"
    using v(2) by simp
  finally have "\<bar>int k * m\<bar> < 2 ^ 53"
    by simp
  then have "representable binary64 (of_int (int k * m) * 2 powi e)"
    using v(3) by (intro repr64) simp_all
  then show ?thesis
    by (simp add: v(1) mult.assoc)
qed

lemma multiple_in_range:
  assumes "\<bar>v\<bar> < 2 ^ 128" "k \<le> 2 ^ 29"
  shows "\<bar>real k * v\<bar> < 2 ^ 1024"
proof -
  have "\<bar>real k * v\<bar> = real k * \<bar>v\<bar>"
    by (simp add: abs_mult)
  also have "\<dots> \<le> 2 ^ 29 * \<bar>v\<bar>"
    using assms(2) by (intro mult_right_mono) (simp_all add: numeral_power_le_of_nat_cancel_iff of_nat_le_numeral_power_cancel_iff)
  also have "\<dots> \<le> 2 ^ 29 * 2 ^ 128"
    using assms(1) by simp
  also have "\<dots> < (2::real) ^ 1024"
    by simp
  finally show ?thesis .
qed

lemma foldl_replicate_Suc:
  "foldl f a (replicate (Suc n) x) = f (foldl f a (replicate n x)) x"
proof -
  have "replicate (Suc n) x = replicate n x @ [x]"
    by (simp add: replicate_append_same)
  then show ?thesis
    by (simp only: foldl_append foldl_Cons foldl_Nil)
qed

lemma sum_double_replicate:
  assumes "representable binary32 v" "\<bar>v\<bar> < 2 ^ 128" "n \<le> 2 ^ 29"
  shows "sum_double (replicate n (Fin v)) = Fin (real n * v)"
  using assms(3)
proof (induction n)
  case 0
  then show ?case by (simp add: sum_double_def)
next
  case (Suc n)
  then have IH: "sum_double (replicate n (Fin v)) = Fin (real n * v)"
    by simp
  have "sum_double (replicate (Suc n) (Fin v)) = addd (sum_double (replicate n (Fin v))) (Fin v)"
    unfolding sum_double_def by (rule foldl_replicate_Suc)
  also have "\<dots> = to_double (Fin (real (Suc n) * v))"
    by (simp add: IH addd_def fl_Fin_simps algebra_simps)
  also have "\<dots> = Fin (real (Suc n) * v)"
    by (rule to_double_exact)
      (use Suc.prems assms in \<open>simp_all only: multiple_representable multiple_in_range\<close>)
  finally show ?case .
qed

lemma sum_sq_dev_replicate:
  "sum_sq_dev (replicate n (Fin v)) (Fin v) = Fin 0"
proof (induction n)
  case 0
  then show ?case by (simp add: sum_sq_dev_def)
next
  case (Suc n)
  have "sum_sq_dev (replicate (Suc n) (Fin v)) (Fin v)
          = addd (sum_sq_dev (replicate n (Fin v)) (Fin v))
              (mulf (subf (Fin v) (Fin v)) (subf (Fin v) (Fin v)))"
    unfolding sum_sq_dev_def by (rule foldl_replicate_Suc)
  then show ?case
    by (simp add: Suc.IH subf_def mulf_def addd_def fl_Fin_simps to_float_0 to_double_0)
qed

lemma mean_replicate:
  assumes "representable binary32 v" "\<bar>v\<bar> < 2 ^ 128" "0 < n" "n \<le> 2 ^ 29"
  shows "mean (replicate n (Fin v)) (int n) = Fin v"
proof -
  have "\<bar>v\<bar> < 2 ^ 1024"
    using assms(2) by (rule less_trans) simp
  then have d: "to_double (Fin v) = Fin v"
    using representable_32_64[OF assms(1)] by (intro to_double_exact)
  have f: "to_float (Fin v) = Fin v"
    using assms(1,2) by (rule to_float_exact)
  have "mean (replicate n (Fin v)) (int n)
          = to_float (divd (Fin (real n * v)) (int_to_double (int n)))"
    using assms by (simp add: mean_sum sum_double_replicate)
  also have "\<dots> = to_float (to_double (Fin v))"
    using assms(3) by (simp add: divd_def int_to_double_def fl_Fin_simps)
  finally show ?thesis
    by (simp add: d f)
qed

lemma stand_dev_replicate:
  assumes "representable binary32 v" "\<bar>v\<bar> < 2 ^ 128" "2 \<le> n" "n \<le> 2 ^ 29"
  shows "stand_dev (replicate n (Fin v)) (int n) (mean (replicate n (Fin v)) (int n)) = Fin 0"
proof -
  have m: "mean (replicate n (Fin v)) (int n) = Fin v"
    using assms by (intro mean_replicate) simp_all
  have "stand_dev (replicate n (Fin v)) (int n) (Fin v)
          = to_float (sqrtd (divd (Fin 0) (int_to_double (int n - 1))))"
    using assms(3) by (simp add: stand_dev_bessel sum_sq_dev_replicate)
  also have "\<dots> = Fin 0"
    using assms(3)
    by (simp add: divd_def int_to_double_def fl_Fin_simps to_double_0 sqrtd_def to_float_0)
  finally show ?thesis
    by (simp add: m)
qed

text \<open>
  C8, as the code has it. For a finite binary32 value \<open>v\<close> and a count from 2 to \<open>2\<^sup>2\<^sup>9\<close>,
  the deviation of that many copies of \<open>v\<close> around their computed mean is exactly 0: up to
  that count every partial sum is a binary64 value, so the mean is \<open>v\<close> itself.
\<close>

theorem stand_dev_identical_values:
  assumes "representable binary32 v" "\<bar>v\<bar> < 2 ^ 128" "2 \<le> n" "n \<le> 2 ^ 29"
  shows "stand_dev (replicate n (Fin v)) (int n) (mean (replicate n (Fin v)) (int n)) = Fin 0"
  using assms by (rule stand_dev_replicate)

theorem stand_dev_identical_values_witness:
  "representable binary32 1 \<and> \<bar>1::real\<bar> < 2 ^ 128 \<and> (2::nat) \<le> 3 \<and> (3::nat) \<le> 2 ^ 29
     \<and> stand_dev (replicate 3 (Fin 1)) (int 3) (mean (replicate 3 (Fin 1)) (int 3)) = Fin 0"
proof -
  have r: "representable binary32 1"
    using repr32[of 1 0] by simp
  show ?thesis
    using r stand_dev_identical_values[OF r, of 3] by simp
qed

text \<open>
  The claim itself fails for the float value plus infinity, which \<^verbatim>\<open>atof\<close> yields for
  \<^verbatim>\<open>inf\<close>: the mean of two infinities is infinite, each deviation is \<open>\<infinity> - \<infinity>\<close>, and
  the result is a NaN, which is not 0.
\<close>

theorem stand_dev_identical_counterexample:
  "to_float PInf = PInf
     \<and> mean (replicate 2 PInf) 2 = PInf
     \<and> stand_dev (replicate 2 PInf) 2 (mean (replicate 2 PInf) 2) = NaN
     \<and> \<not> fl_eq (stand_dev (replicate 2 PInf) 2 (mean (replicate 2 PInf) 2)) (Fin 0)"
proof -
  have "replicate 2 PInf = [PInf, PInf]"
    by (simp add: numeral_2_eq_2)
  then show ?thesis
    by (simp add: mean_inf stand_dev_inf to_float_special fl_eq_def)
qed

lemma rne_half_below_even: "even E \<Longrightarrow> rne (of_int E - 1 / 2) = E"
proof -
  assume e: "even E"
  have f: "\<lfloor>real_of_int E - 1 / 2\<rfloor> = E - 1"
    by (simp add: floor_eq_iff)
  have "odd (E - 1)"
    using e by simp
  then show ?thesis
    unfolding rne_def Let_def f by simp
qed

lemma rne_quarter_below: "rne (of_int M - 1 / 4) = M"
proof -
  have f: "\<lfloor>real_of_int M - 1 / 4\<rfloor> = M - 1"
    by (simp add: floor_eq_iff)
  show ?thesis
    unfolding rne_def Let_def f by simp
qed

lemma quantum64: "\<lfloor>log 2 \<bar>y\<bar>\<rfloor> = e \<Longrightarrow> - 1022 \<le> e \<Longrightarrow> quantum binary64 y = 2 powi (e - 52)"
  by (simp add: quantum_def binary64_def)

lemma rnd_of_round:
  "round_fin F x = y \<Longrightarrow> \<bar>y\<bar> < 2 powi (emax F + 1) \<Longrightarrow> rnd F (Fin x) = Fin y"
  by (simp add: rnd_def Let_def)

lemma round64_tie_step:
  assumes X: "X = of_int E / 2 ^ 22" and E: "even E"
    and lo: "2 ^ 30 \<le> X - 1 / 2 ^ 23" and hi: "X - 1 / 2 ^ 23 < 2 ^ 32"
  shows "round_fin binary64 (X - 1 / 2 ^ 23) = X"
proof -
  define y where "y = X - 1 / 2 ^ 23"
  have y0: "y \<noteq> 0" "0 < y"
    using lo by (simp_all add: y_def)
  show ?thesis
  proof (cases "y < 2 ^ 31")
    case True
    have "2 powi 30 \<le> \<bar>y\<bar> \<and> \<bar>y\<bar> < 2 powi (30 + 1)"
      using y0 lo True by (simp add: y_def)
    then have "\<lfloor>log 2 \<bar>y\<bar>\<rfloor> = 30"
      using floor_log2_iff[OF y0(1), of 30] by blast
    then have q: "quantum binary64 y = 2 powi (- 22)"
      using quantum64[of y 30] by simp
    have yq: "y / 2 powi (- 22) = of_int E - 1 / 2"
      by (simp add: y_def X field_simps)
    have "rne (y / quantum binary64 y) = E"
      unfolding q yq by (rule rne_half_below_even[OF E])
    then have "round_fin binary64 y = of_int E * 2 powi (- 22)"
      using y0(1) unfolding round_fin_def q by simp
    then show ?thesis
      by (simp add: y_def X)
  next
    case False
    have "2 powi 31 \<le> \<bar>y\<bar> \<and> \<bar>y\<bar> < 2 powi (31 + 1)"
      using y0 hi False by (simp add: y_def)
    then have "\<lfloor>log 2 \<bar>y\<bar>\<rfloor> = 31"
      using floor_log2_iff[OF y0(1), of 31] by blast
    then have q: "quantum binary64 y = 2 powi (- 21)"
      using quantum64[of y 31] by simp
    obtain M where M: "E = 2 * M"
      using E by (auto elim: evenE)
    have yq: "y / 2 powi (- 21) = of_int M - 1 / 4"
      by (simp add: y_def X M field_simps)
    have "rne (y / quantum binary64 y) = M"
      unfolding q yq by (rule rne_quarter_below)
    then have "round_fin binary64 y = of_int M * 2 powi (- 21)"
      using y0(1) unfolding round_fin_def q by simp
    then show ?thesis
      by (simp add: y_def X M)
  qed
qed


lemma near_two_eq: "near_two = of_int (2 ^ 24 - 1) * 2 powi (- 23)"
  by (simp add: near_two_def field_simps)

lemma near_two_float: "representable binary32 near_two" "\<bar>near_two\<bar> < 2 ^ 128"
proof -
  show "representable binary32 near_two"
    unfolding near_two_eq by (rule repr32) simp_all
  have "0 \<le> near_two" "near_two \<le> 2"
    by (simp_all add: near_two_def)
  then show "\<bar>near_two\<bar> < 2 ^ 128"
    by simp
qed

lemma near_two_multiple:
  assumes "k \<le> 2 ^ 29 + 32"
  shows "to_double (Fin (real k * near_two)) = Fin (real k * near_two)"
proof (rule to_double_exact)
  have "int k * (2 ^ 24 - 1) \<le> (2 ^ 29 + 32) * (2 ^ 24 - 1)"
    using assms by (intro mult_right_mono) simp_all
  then have "\<bar>int k * (2 ^ 24 - 1)\<bar> < 2 ^ 53"
    by simp
  then have "representable binary64 (of_int (int k * (2 ^ 24 - 1)) * 2 powi (- 23))"
    by (intro repr64) simp_all
  then show "representable binary64 (real k * near_two)"
    by (simp add: near_two_eq mult.assoc)
  have "real k \<le> 2 ^ 29 + 32"
    using assms by (metis of_nat_le_iff of_nat_numeral of_nat_power of_nat_add)
  then have "real k * near_two \<le> (2 ^ 29 + 32) * 2"
    by (intro mult_mono) (simp_all add: near_two_def)
  moreover have "0 \<le> real k * near_two"
    by (simp add: near_two_def)
  ultimately show "\<bar>real k * near_two\<bar> < 2 ^ 1024"
    by simp
qed

lemma sum_near_two_exact:
  "k \<le> 2 ^ 29 + 32 \<Longrightarrow> sum_double (replicate k (Fin near_two)) = Fin (real k * near_two)"
proof (induction k)
  case 0
  then show ?case by (simp add: sum_double_def)
next
  case (Suc k)
  then have IH: "sum_double (replicate k (Fin near_two)) = Fin (real k * near_two)"
    by simp
  have "sum_double (replicate (Suc k) (Fin near_two))
          = addd (sum_double (replicate k (Fin near_two))) (Fin near_two)"
    unfolding sum_double_def by (rule foldl_replicate_Suc)
  also have "\<dots> = to_double (Fin (real (Suc k) * near_two))"
    by (simp add: IH addd_def fl_Fin_simps algebra_simps)
  also have "\<dots> = Fin (real (Suc k) * near_two)"
    using Suc.prems by (rule near_two_multiple)
  finally show ?case .
qed

lemma sum_near_two_rounded:
  "j \<le> 2 ^ 30 \<Longrightarrow>
   sum_double (replicate (exact_count + j) (Fin near_two)) = Fin (2 ^ 30 - 1 / 2 ^ 18 + 2 * real j)"
proof (induction j)
  case 0
  have "exact_count \<le> 2 ^ 29 + 32"
    by (simp add: exact_count_def)
  then have "sum_double (replicate exact_count (Fin near_two)) = Fin (real exact_count * near_two)"
    by (rule sum_near_two_exact)
  moreover have "real exact_count * near_two = 2 ^ 30 - 1 / 2 ^ 18"
    by (simp add: near_two_def exact_count_def)
  ultimately show ?case
    by simp
next
  case (Suc j)
  define T where "T = 2 ^ 30 - 1 / 2 ^ 18 + 2 * real j"
  define X where "X = T + 2"
  have IH: "sum_double (replicate (exact_count + j) (Fin near_two)) = Fin T"
    using Suc by (simp add: T_def)
  have "real (Suc j) \<le> real (2 ^ 30 :: nat)"
    using Suc.prems by (simp only: of_nat_le_iff)
  then have jb: "real j + 1 \<le> 2 ^ 30"
    by simp
  have XE: "X = of_int (2 ^ 52 - 16 + 2 ^ 23 * (int j + 1)) / 2 ^ 22"
    by (simp add: X_def T_def field_simps)
  have ev: "even (2 ^ 52 - 16 + 2 ^ 23 * (int j + 1))"
    by simp
  have lo: "2 ^ 30 \<le> X - 1 / 2 ^ 23"
    by (simp add: X_def T_def)
  have hi: "X - 1 / 2 ^ 23 < 2 ^ 32"
    using jb by (simp add: X_def T_def)
  have rf: "round_fin binary64 (X - 1 / 2 ^ 23) = X"
    using XE ev lo hi by (rule round64_tie_step)
  have "0 \<le> X" "X < 2 ^ 33"
    using lo jb by (simp_all add: X_def T_def)
  then have "\<bar>X\<bar> < 2 ^ 1024"
    by simp
  then have "\<bar>X\<bar> < 2 powi (emax binary64 + 1)"
    by (simp add: binary64_def)
  then have td: "to_double (Fin (X - 1 / 2 ^ 23)) = Fin X"
    unfolding to_double_def using rf by (intro rnd_of_round)
  have "sum_double (replicate (Suc (exact_count + j)) (Fin near_two))
          = addd (sum_double (replicate (exact_count + j) (Fin near_two))) (Fin near_two)"
    unfolding sum_double_def by (rule foldl_replicate_Suc)
  also have "\<dots> = to_double (Fin (T + near_two))"
    unfolding IH by (simp add: addd_def fl_Fin_simps)
  also have "T + near_two = X - 1 / 2 ^ 23"
    by (simp add: X_def near_two_def)
  finally have "sum_double (replicate (Suc (exact_count + j)) (Fin near_two)) = Fin X"
    using td by simp
  then show ?case
    by (simp add: X_def T_def)
qed

lemma sum_many: "sum_double (replicate many (Fin near_two)) = Fin (2 * real many - 64 - 1 / 2 ^ 18)"
proof -
  define j :: nat where "j = 2 ^ 29 + 2 ^ 15 - 32"
  have m: "many = exact_count + j"
    by (simp add: many_def exact_count_def j_def)
  have "j \<le> 2 ^ 30"
    by (simp add: j_def)
  then have "sum_double (replicate (exact_count + j) (Fin near_two))
          = Fin (2 ^ 30 - 1 / 2 ^ 18 + 2 * real j)"
    by (rule sum_near_two_rounded)
  moreover have "2 ^ 30 - 1 / 2 ^ 18 + 2 * real j = 2 * real many - 64 - 1 / 2 ^ 18"
    by (simp add: many_def j_def)
  ultimately show ?thesis
    unfolding m by simp
qed


lemma rne_upper_half: "of_int k - 1 / 2 < z \<Longrightarrow> z < of_int k \<Longrightarrow> rne z = k"
proof -
  assume a: "of_int k - 1 / 2 < z" "z < of_int k"
  have f: "\<lfloor>z\<rfloor> = k - 1"
    using a by (simp add: floor_eq_iff)
  show ?thesis
    unfolding rne_def Let_def f using a by simp
qed

lemma round32_to_two:
  assumes "2 - 1 / 2 ^ 24 < y" "y \<le> 2"
  shows "round_fin binary32 y = 2"
proof (cases "y = 2")
  case True
  have "representable binary32 (of_int 1 * 2 powi 1)"
    by (rule repr32) simp_all
  then show ?thesis
    using round_fin_representable[of binary32 2] True by simp
next
  case False
  then have y: "1 \<le> y" "y < 2" "y \<noteq> 0"
    using assms by simp_all
  have "2 powi 0 \<le> \<bar>y\<bar> \<and> \<bar>y\<bar> < 2 powi (0 + 1)"
    using y by simp
  then have "\<lfloor>log 2 \<bar>y\<bar>\<rfloor> = 0"
    using floor_log2_iff[OF y(3), of 0] by blast
  then have q: "quantum binary32 y = 2 powi (- 23)"
    by (simp add: quantum_def binary32_def)
  have yq: "y / 2 powi (- 23) = y * 2 ^ 23"
    by (simp add: field_simps)
  have "rne (y * 2 ^ 23) = 2 ^ 24"
    by (rule rne_upper_half) (use assms(1) y(2) in \<open>simp_all add: field_simps\<close>)
  then have "rne (y / quantum binary32 y) = 2 ^ 24"
    unfolding q yq .
  then have "round_fin binary32 y = of_int (2 ^ 24) * 2 powi (- 23)"
    using y(3) unfolding round_fin_def q by simp
  then show ?thesis
    by simp
qed

lemma many_facts: "0 < int many" "2 \<le> int many" "real many = 2 ^ 30 + 2 ^ 15" "many \<le> 2 ^ 31"
  by (simp_all add: many_def)

lemma mean_many: "mean (replicate many (Fin near_two)) (int many) = Fin 2"
proof -
  define q where "q = (2 * real many - 64 - 1 / 2 ^ 18) / real many"
  define L :: real where "L = of_int (2 ^ 42 - 2 ^ 17 + 1) * 2 powi (- 41)"
  have "mean (replicate many (Fin near_two)) (int many)
          = to_float (divd (sum_double (replicate many (Fin near_two))) (int_to_double (int many)))"
    using many_facts(1) by (intro mean_sum) simp_all
  also have "\<dots> = to_float (to_double (Fin q))"
    using many_facts(3) by (simp add: sum_many divd_def int_to_double_def fl_Fin_simps q_def)
  finally have m: "mean (replicate many (Fin near_two)) (int many) = to_float (to_double (Fin q))" .
  have Lq: "L \<le> q" "q \<le> 2"
    by (simp_all add: q_def L_def many_facts(3) field_simps)
  have "representable binary64 L" "representable binary64 (of_int 1 * 2 powi 1)"
    unfolding L_def by (rule repr64; simp)+
  then have "\<exists>y. to_double (Fin q) = Fin y \<and> L \<le> y \<and> y \<le> 2"
    using Lq by (intro to_double_between) (simp_all add: L_def)
  then obtain y where y: "to_double (Fin q) = Fin y" "L \<le> y" "y \<le> 2"
    by blast
  have "2 - 1 / 2 ^ 24 < L"
    by (simp add: L_def)
  then have "round_fin binary32 y = 2"
    using y(2,3) by (intro round32_to_two) simp_all
  then have "to_float (Fin y) = Fin 2"
    unfolding to_float_def by (rule rnd_of_round) (simp add: binary32_def)
  then show ?thesis
    by (simp add: m y(1))
qed


lemma sq_dev_near_two:
  "mulf (subf (Fin near_two) (Fin 2)) (subf (Fin near_two) (Fin 2)) = Fin (1 / 2 ^ 46)"
proof -
  have r1: "representable binary32 (of_int (- 1) * 2 powi (- 23))"
    by (rule repr32) simp_all
  have r2: "representable binary32 (of_int 1 * 2 powi (- 46))"
    by (rule repr32) simp_all
  have d: "near_two - 2 = - (1 / 2 ^ 23)"
    by (simp add: near_two_def)
  have "to_float (Fin (- (1 / 2 ^ 23))) = Fin (- (1 / 2 ^ 23))"
    using r1 by (intro to_float_exact) (simp_all add: power_int_minus divide_simps)
  then have s: "subf (Fin near_two) (Fin 2) = Fin (- (1 / 2 ^ 23))"
    by (simp add: subf_def fl_Fin_simps d)
  have "to_float (Fin (1 / 2 ^ 46)) = Fin (1 / 2 ^ 46)"
    using r2 by (intro to_float_exact) (simp_all add: power_int_minus divide_simps)
  then show ?thesis
    unfolding s by (simp add: mulf_def fl_Fin_simps)
qed

lemma sum_sq_dev_near_two:
  "k \<le> 2 ^ 31 \<Longrightarrow> sum_sq_dev (replicate k (Fin near_two)) (Fin 2) = Fin (real k / 2 ^ 46)"
proof (induction k)
  case 0
  then show ?case by (simp add: sum_sq_dev_def)
next
  case (Suc k)
  then have IH: "sum_sq_dev (replicate k (Fin near_two)) (Fin 2) = Fin (real k / 2 ^ 46)"
    by simp
  have "int (Suc k) \<le> 2 ^ 31"
    using Suc.prems by (metis of_nat_le_iff of_nat_numeral of_nat_power)
  then have "\<bar>int (Suc k)\<bar> < 2 ^ 53"
    by simp
  then have "representable binary64 (of_int (int (Suc k)) * 2 powi (- 46))"
    by (rule repr64) simp
  then have r: "representable binary64 (real (Suc k) / 2 ^ 46)"
    by (simp add: power_int_minus divide_simps)
  have "real (Suc k) \<le> 2 ^ 31"
    using Suc.prems by (metis of_nat_le_iff of_nat_numeral of_nat_power)
  then have b: "\<bar>real (Suc k) / 2 ^ 46\<bar> < 2 ^ 1024"
    by (simp add: divide_simps)
  have "sum_sq_dev (replicate (Suc k) (Fin near_two)) (Fin 2)
          = addd (sum_sq_dev (replicate k (Fin near_two)) (Fin 2))
              (mulf (subf (Fin near_two) (Fin 2)) (subf (Fin near_two) (Fin 2)))"
    unfolding sum_sq_dev_def by (rule foldl_replicate_Suc)
  also have "\<dots> = to_double (Fin (real (Suc k) / 2 ^ 46))"
    unfolding IH sq_dev_near_two by (simp add: addd_def fl_Fin_simps add_divide_distrib add.commute)
  also have "\<dots> = Fin (real (Suc k) / 2 ^ 46)"
    using r b by (rule to_double_exact)
  finally show ?case .
qed

lemma sqrt_pow2_bounds:
  assumes "2 powi (- 46) \<le> a" "a \<le> 2 powi (- 44)"
  shows "2 powi (- 23) \<le> sqrt a" "sqrt a \<le> 2 powi (- 22)"
proof -
  have "sqrt ((2 powi (- 23)) ^ 2) \<le> sqrt a"
    using assms(1) by (intro real_sqrt_le_mono) (simp add: power_int_minus divide_simps)
  then show "2 powi (- 23) \<le> sqrt a"
    by simp
  have "sqrt a \<le> sqrt ((2 powi (- 22)) ^ 2)"
    using assms(2) by (intro real_sqrt_le_mono) (simp add: power_int_minus divide_simps)
  then show "sqrt a \<le> 2 powi (- 22)"
    by simp
qed

lemma stand_dev_many:
  "\<exists>r. stand_dev (replicate many (Fin near_two)) (int many) (Fin 2) = Fin r \<and> 0 < r"
proof -
  define q where "q = real many / 2 ^ 46 / (real many - 1)"
  have c: "real_of_int (int many - 1) = real many - 1" "real many - 1 \<noteq> 0"
    using many_facts(3) by simp_all
  have "stand_dev (replicate many (Fin near_two)) (int many) (Fin 2)
          = to_float (sqrtd (divd (sum_sq_dev (replicate many (Fin near_two)) (Fin 2))
              (int_to_double (int many - 1))))"
    using many_facts(2) by (intro stand_dev_bessel) simp_all
  also have "\<dots> = to_float (sqrtd (to_double (Fin q)))"
    unfolding sum_sq_dev_near_two[OF many_facts(4)] divd_def int_to_double_def c(1)
      fl_Fin_simps(4)[OF c(2)] q_def ..
  finally have s: "stand_dev (replicate many (Fin near_two)) (int many) (Fin 2)
                     = to_float (sqrtd (to_double (Fin q)))" .
  have "2 powi (- 46) \<le> q" "q \<le> 2 powi (- 44)"
    by (simp_all add: q_def many_facts(3) power_int_minus divide_simps)
  then have "\<exists>a. to_double (Fin q) = Fin a \<and> 2 powi (- 46) \<le> a \<and> a \<le> 2 powi (- 44)"
    by (intro to_double_pow2_between) simp_all
  then obtain a where a: "to_double (Fin q) = Fin a" "2 powi (- 46) \<le> a" "a \<le> 2 powi (- 44)"
    by blast
  have "(0::real) < 2 powi (- 46)"
    by simp
  then have a0: "0 \<le> a"
    using a(2) by linarith
  have sa: "sqrtd (Fin a) = to_double (Fin (sqrt a))"
    unfolding sqrtd_def fl_Fin_simps(5)[OF a0] ..
  have "\<exists>b. to_double (Fin (sqrt a)) = Fin b \<and> 2 powi (- 23) \<le> b \<and> b \<le> 2 powi (- 22)"
    using sqrt_pow2_bounds[OF a(2,3)] by (intro to_double_pow2_between) simp_all
  then obtain b where b: "to_double (Fin (sqrt a)) = Fin b" "2 powi (- 23) \<le> b" "b \<le> 2 powi (- 22)"
    by blast
  have "\<exists>r. to_float (Fin b) = Fin r \<and> 2 powi (- 23) \<le> r \<and> r \<le> 2 powi (- 22)"
    using b(2,3) by (intro to_float_pow2_between) simp_all
  then obtain r where r: "to_float (Fin b) = Fin r" "2 powi (- 23) \<le> r"
    by blast
  have "(0::real) < 2 powi (- 23)"
    by simp
  then have "0 < r"
    using r(2) by linarith
  moreover have "stand_dev (replicate many (Fin near_two)) (int many) (Fin 2) = Fin r"
    unfolding s a(1) sa b(1) r(1) ..
  ultimately show ?thesis
    by blast
qed

text \<open>
  The bound on the count in the statement above cannot simply be dropped, also for finite
  values. With \<open>2\<^sup>3\<^sup>0 + 2\<^sup>1\<^sup>5\<close> copies of the largest binary32 value below 2 the partial
  sums leave the range in which the \<^verbatim>\<open>double\<close> accumulator is exact: from \<open>2\<^sup>2\<^sup>9 + 32\<close>
  copies on every addition rounds up to the next multiple of the spacing, the computed mean
  is 2 instead of the value, each squared deviation is \<open>2\<^sup>-\<^sup>4\<^sup>6\<close>, and the result is positive.
\<close>

lemma stand_dev_identical_large_count:
  "representable binary32 near_two \<and> \<bar>near_two\<bar> < 2 ^ 128 \<and> 2 \<le> int many
     \<and> mean (replicate many (Fin near_two)) (int many) = Fin 2
     \<and> (\<exists>r. stand_dev (replicate many (Fin near_two)) (int many)
               (mean (replicate many (Fin near_two)) (int many)) = Fin r \<and> 0 < r)"
  unfolding mean_many using near_two_float many_facts(2) stand_dev_many by blast

subsection \<open>The bucket index\<close>

lemma smod_11_range: "- 10 \<le> (k::int) smod 11 \<and> k smod 11 \<le> 10"
proof -
  define m where "m = \<bar>k\<bar> mod 11"
  have m: "0 \<le> m" "m < 11"
    by (simp_all add: m_def)
  have "k smod 11 = sgn k * m"
    by (simp add: signed_modulo_int_def m_def)
  then show ?thesis
    using m by (cases "0 < k"; cases "k = 0"; simp add: sgn_if)
qed

lemma hash_range: "0 \<le> hash s \<and> hash s \<le> 10"
proof -
  have r: "- 10 \<le> sint (hash_loop s 5381) smod 11 \<and> sint (hash_loop s 5381) smod 11 \<le> 10"
    by (rule smod_11_range)
  then show ?thesis
    by (auto simp add: hash_def TABLE_SIZE_def Let_def)
qed

lemma hash_index: "nat (hash s) < 11"
  using hash_range[of s] by linarith

text \<open>
  C10. Whatever the string (empty, with non-alphabetic bytes, long enough for the \<^verbatim>\<open>long\<close>
  accumulator to wrap around), \<^verbatim>\<open>hash\<close> returns an index from 0 to \<^verbatim>\<open>TABLE_SIZE - 1\<close>,
  that is from 0 to 10, which is a valid position of the bucket table.
\<close>

theorem hash_in_table:
  "0 \<le> hash s \<and> hash s \<le> TABLE_SIZE - 1 \<and> TABLE_SIZE - 1 = 10
     \<and> nat (hash s) < length empty_table"
  using hash_range[of s] hash_index[of s] by (simp add: TABLE_SIZE_def empty_table_def)

subsection \<open>Labels, buckets and series\<close>

lemma toupper_cases:
  "toupper c = c \<or> (97 \<le> (of_char c :: nat) \<and> (of_char c :: nat) \<le> 122
      \<and> toupper c = char_of (of_char c - (32::nat)))"
  by (simp add: toupper_def)

lemma of_char_toupper:
  "(of_char (toupper c) :: nat)
     = (if 97 \<le> (of_char c :: nat) \<and> (of_char c :: nat) \<le> 122 then of_char c - 32 else of_char c)"
proof -
  have "(of_char c :: nat) < 256"
    by (rule nat_of_char_less_256)
  then show ?thesis
    by (auto simp add: toupper_def)
qed

lemma char_eq_iff_of_char: "c = d \<longleftrightarrow> (of_char c :: nat) = of_char d"
  by (metis char_of_char)

lemma toupper_idem: "toupper (toupper c) = toupper c"
  by (auto simp add: char_eq_iff_of_char of_char_toupper)

lemma toupper_NUL: "toupper c = NUL \<longleftrightarrow> c = NUL"
  by (auto simp add: char_eq_iff_of_char of_char_toupper NUL_def)

lemma toupper_eol: "is_eol (toupper c) \<longleftrightarrow> is_eol c"
  by (auto simp add: is_eol_def char_eq_iff_of_char of_char_toupper)

lemma hash_loop_toupper: "hash_loop (map toupper s) t = hash_loop s t"
  by (induction s arbitrary: t) (simp_all add: toupper_idem toupper_NUL Let_def)

lemma hash_toupper: "hash (map toupper s) = hash s"
  by (simp add: hash_def hash_loop_toupper)

lemma takeWhile_strip_eol:
  "takeWhile (\<lambda>c. \<not> is_eol c) (strip_eol s) = takeWhile (\<lambda>c. \<not> is_eol c) s"
proof -
  define t where "t = rev (takeWhile is_eol (rev s))"
  have s: "s = strip_eol s @ t"
    unfolding strip_eol_def t_def by (metis rev_append rev_rev_ident takeWhile_dropWhile_id)
  have t: "\<forall>c\<in>set t. is_eol c"
    unfolding t_def by (auto dest: set_takeWhileD)
  then have "takeWhile (\<lambda>c. \<not> is_eol c) t = []"
    by (cases t) auto
  then have "takeWhile (\<lambda>c. \<not> is_eol c) (strip_eol s @ t) = takeWhile (\<lambda>c. \<not> is_eol c) (strip_eol s)"
    by (simp add: takeWhile_append takeWhile_eq_all_conv[THEN iffD2])
  then show ?thesis
    using s by simp
qed

lemma hash_clean_norm:
  "hash (takeWhile (\<lambda>c. \<not> is_eol c) s) = hash (takeWhile (\<lambda>c. \<not> is_eol c) (norm_label s))"
proof -
  have "takeWhile (\<lambda>c. \<not> is_eol c) (norm_label s)
          = map toupper (takeWhile (\<lambda>c. \<not> is_eol c) (strip_eol s))"
    by (simp add: norm_label_def takeWhile_map comp_def toupper_eol)
  then show ?thesis
    by (simp add: hash_toupper takeWhile_strip_eol)
qed

lemma strtok_label:
  assumes "s \<noteq> []" "CHR '','' \<notin> set s"
  shows "strtok (s @ CHR '','' # r) = Some (s, r)"
proof -
  obtain c cs where s: "s = c # cs"
    using assms(1) by (cases s) auto
  have c: "c \<noteq> CHR '',''"
    using assms(2) s by auto
  have 1: "dropWhile (\<lambda>c. c = CHR '','') (s @ CHR '','' # r) = s @ CHR '','' # r"
    using c by (simp add: s)
  have 2: "takeWhile (\<lambda>c. c \<noteq> CHR '','') (s @ CHR '','' # r) = s"
    using assms(2) by (simp add: takeWhile_append)
  have 3: "dropWhile (\<lambda>c. c \<noteq> CHR '','') (s @ CHR '','' # r) = CHR '','' # r"
    using assms(2) by (simp add: dropWhile_append)
  show ?thesis
    unfolding strtok_def Let_def 1 2 3 by (simp add: s)
qed

lemma cstr_line:
  assumes "NUL \<notin> set s"
  shows "cstr (s @ CHR '','' # v) = s @ CHR '','' # cstr v"
  using assms by (simp add: cstr_def takeWhile_append NUL_def)

lemma load_record:
  assumes "wf_label s" "strtok (cstr v) = Some (t, r)"
  shows "load E (s @ CHR '','' # v) d
           = Inr \<lparr>raw_type = clean_label s, raw_value = to_float (atof E t)\<rparr>"
  using assms(1) unfolding wf_label_def clean_label_def
  by (simp add: load_def cstr_line strtok_label assms(2) Let_def)

lemma hash_clean_label:
  assumes "norm_label l1 = norm_label l2"
  shows "hash (clean_label l1) = hash (clean_label l2)"
  unfolding clean_label_def using hash_clean_norm[of l1] hash_clean_norm[of l2] assms by simp

lemma wrap32_id: "0 \<le> k \<Longrightarrow> k < 2 ^ 31 \<Longrightarrow> wrap32 k = k"
  by (simp add: wrap32_def)

lemma grow_ok:
  assumes "\<forall>n. can_alloc E n" "0 \<le> capacity b" "capacity b < K" "K \<le> 2 ^ 30"
  shows "\<exists>b'. grow E b = Some b' \<and> returns b' = returns b \<and> day_count b' = day_count b
            \<and> type_name b' = type_name b
            \<and> 0 \<le> capacity b' \<and> capacity b' < 2 * K"
proof -
  have c: "0 \<le> capacity b * 2" "capacity b * 2 < 2 ^ 31" "capacity b * 2 < 2 * K"
    using assms(2,3,4) by simp_all
  have w: "wrap32 (capacity b * 2) = capacity b * 2"
    using c(1,2) by (rule wrap32_id)
  show ?thesis
  proof (cases "capacity b \<le> day_count b")
    case True
    then have "grow E b = Some (b\<lparr>capacity := capacity b * 2\<rparr>)"
      using assms(1) c(1) by (simp add: grow_def Let_def w)
    then show ?thesis
      using c by simp
  next
    case False
    then have "grow E b = Some b"
      by (simp add: grow_def)
    then show ?thesis
      using assms(2,3) c(3) by simp
  qed
qed

lemma ingest_line:
  assumes l: "load E line d = Inr e"
    and i: "nat (hash (raw_type e)) < length buckets"
    and al: "\<forall>n. can_alloc E n"
    and cap: "case buckets ! nat (hash (raw_type e)) of
                None \<Rightarrow> True | Some b \<Rightarrow> 0 \<le> capacity b \<and> capacity b < K"
    and K: "50 < K" "K \<le> 2 ^ 30"
  shows "\<exists>b. ingest E (line # rest) d buckets
               = ingest E rest e (buckets[nat (hash (raw_type e)) := Some b])
            \<and> returns b = series_at buckets (nat (hash (raw_type e))) @ [raw_value e]
            \<and> 0 \<le> capacity b \<and> capacity b < 2 * K"
proof -
  let ?i = "nat (hash (raw_type e))"
  obtain b0 where b0:
    "(case buckets ! ?i of None \<Rightarrow> create_bucket E (raw_type e) | Some b \<Rightarrow> Some b) = Some b0"
    "returns b0 = series_at buckets ?i" "0 \<le> capacity b0" "capacity b0 < K"
  proof (cases "buckets ! ?i")
    case None
    let ?b = "\<lparr>type_name = raw_type e, returns = [], day_count = 0, capacity = 50,
                mean_val = Fin 0, std_dev = Fin 0, worst_case = Fin 0,
                worst_case_rieman = Fin 0\<rparr>"
    have "create_bucket E (raw_type e) = Some ?b"
      using al by (simp add: create_bucket_def)
    then show ?thesis
      using None K(1) by (intro that[of ?b]) (simp_all add: series_at_def)
  next
    case (Some b)
    then show ?thesis
      using cap by (intro that[of b]) (simp_all add: series_at_def)
  qed
  obtain b1 where b1: "grow E b0 = Some b1" "returns b1 = returns b0"
    "0 \<le> capacity b1" "capacity b1 < 2 * K"
    using grow_ok[OF al b0(3,4) K(2)] by blast
  let ?b = "b1\<lparr>returns := returns b1 @ [raw_value e], day_count := day_count b1 + 1\<rparr>"
  have "ingest E (line # rest) d buckets = ingest E rest e (buckets[?i := Some ?b])"
    using l b0(1) b1(1) by (simp add: Let_def)
  then show ?thesis
    using b0(2) b1(2,3,4) by (intro exI[of _ ?b]) simp
qed

lemma ingest_pair:
  assumes l1: "load E line1 d = Inr e1" and l2: "load E line2 e1 = Inr e2"
    and h: "hash (raw_type e1) = hash (raw_type e2)"
    and n: "length buckets = 11"
    and al: "\<forall>n. can_alloc E n"
    and cap: "room_for_two (buckets ! nat (hash (raw_type e1)))"
  shows "\<exists>b'. ingest E [line1, line2] d buckets = (None, b') \<and> length b' = 11
            \<and> series_at b' (nat (hash (raw_type e1)))
                 = series_at buckets (nat (hash (raw_type e1))) @ [raw_value e1, raw_value e2]
            \<and> (\<forall>j. j \<noteq> nat (hash (raw_type e1)) \<longrightarrow> b' ! j = buckets ! j)"
proof -
  let ?i = "nat (hash (raw_type e1))"
  have i: "?i < length buckets"
    using hash_index[of "raw_type e1"] n by simp
  have c1: "case buckets ! ?i of None \<Rightarrow> True | Some b \<Rightarrow> 0 \<le> capacity b \<and> capacity b < 2 ^ 29"
    using cap by (simp add: room_for_two_def)
  obtain b1 where b1: "ingest E [line1, line2] d buckets = ingest E [line2] e1 (buckets[?i := Some b1])"
    "returns b1 = series_at buckets ?i @ [raw_value e1]" "0 \<le> capacity b1" "capacity b1 < 2 * 2 ^ 29"
    using ingest_line[OF l1 i al c1, of "[line2]"] by auto
  let ?t = "buckets[?i := Some b1]"
  have i2: "nat (hash (raw_type e2)) < length ?t" and e: "nat (hash (raw_type e2)) = ?i"
    using i h by simp_all
  have c2: "case ?t ! nat (hash (raw_type e2)) of
              None \<Rightarrow> True | Some b \<Rightarrow> 0 \<le> capacity b \<and> capacity b < 2 ^ 30"
    using i b1(3,4) by (simp add: e)
  obtain b2 where b2: "ingest E [line2] e1 ?t = ingest E [] e2 (?t[nat (hash (raw_type e2)) := Some b2])"
    "returns b2 = series_at ?t (nat (hash (raw_type e2))) @ [raw_value e2]"
    using ingest_line[OF l2 i2 al c2, of "[]"] by auto
  have s: "series_at ?t ?i = returns b1"
    using i by (simp add: series_at_def)
  let ?r = "buckets[?i := Some b2]"
  have "ingest E [line1, line2] d buckets = (None, ?r)"
    unfolding b1(1) b2(1) e by simp
  moreover have "series_at ?r ?i = series_at buckets ?i @ [raw_value e1, raw_value e2]"
    using i b2(2) b1(2) s by (simp add: series_at_def e)
  moreover have "\<forall>j. j \<noteq> ?i \<longrightarrow> ?r ! j = buckets ! j"
    by simp
  moreover have "length ?r = 11"
    using n by simp
  ultimately show ?thesis
    by blast
qed

lemma hash_Stocks: "hash ''Stocks'' = 7"
  by code_simp

lemma hash_Bonds: "hash ''Bonds'' = 7"
  by code_simp

lemma hash_stocks_lower: "hash ''stocks'' = 7"
  by code_simp

lemma hash_STOCKS: "hash ''STOCKS'' = 7"
  by code_simp

lemma float_123: "to_float (Fin 1) = Fin 1" "to_float (Fin 2) = Fin 2" "to_float (Fin 3) = Fin 3"
  using to_float_int[of 1] to_float_int[of 2] to_float_int[of 3] by simp_all

lemma load_Stocks:
  "load test_env ''Stocks,1'' d = Inr \<lparr>raw_type = ''Stocks'', raw_value = Fin 1\<rparr>"
  by (simp add: load_def strtok_def cstr_def NUL_def is_eol_def test_env_def test_atof_def float_123)

lemma load_Bonds:
  "load test_env ''Bonds,2'' d = Inr \<lparr>raw_type = ''Bonds'', raw_value = Fin 2\<rparr>"
  by (simp add: load_def strtok_def cstr_def NUL_def is_eol_def test_env_def test_atof_def float_123)

lemma load_stocks_crlf:
  "load test_env (''stocks'' @ [CHR 0x0D, CHR 0x0A] @ '',2'') d
     = Inr \<lparr>raw_type = ''stocks'', raw_value = Fin 2\<rparr>"
  by (simp add: load_def strtok_def cstr_def NUL_def is_eol_def test_env_def test_atof_def float_123)

lemma load_STOCKS:
  "load test_env ''STOCKS,3'' d = Inr \<lparr>raw_type = ''STOCKS'', raw_value = Fin 3\<rparr>"
  by (simp add: load_def strtok_def cstr_def NUL_def is_eol_def test_env_def test_atof_def float_123)

lemma test_alloc:
  "create_bucket test_env t = Some (stocks_bucket [] \<lparr>type_name := t\<rparr>)"
  by (simp add: create_bucket_def test_env_def stocks_bucket_def)

lemma empty_table_7: "empty_table ! 7 = None" "length empty_table = 11" "empty_table ! 0 = None"
  by (simp_all add: empty_table_def TABLE_SIZE_def)

lemma ingest_collide:
  "ingest test_env [''Stocks,1'', ''Bonds,2''] stack_garbage empty_table
     = (None, empty_table[7 := Some (stocks_bucket [Fin 1, Fin 2])])"
  by (simp add: load_Stocks load_Bonds hash_Stocks hash_Bonds empty_table_7 test_alloc grow_def
      stocks_bucket_def Let_def)

lemma ingest_single:
  "ingest test_env [''Stocks,1''] stack_garbage empty_table
     = (None, empty_table[7 := Some (stocks_bucket [Fin 1])])"
  by (simp add: load_Stocks hash_Stocks empty_table_7 test_alloc grow_def
      stocks_bucket_def Let_def)

lemma ingest_stocks:
  "ingest test_env [''Stocks,1'', ''stocks'' @ [CHR 0x0D, CHR 0x0A] @ '',2'', ''STOCKS,3'']
       stack_garbage empty_table
     = (None, empty_table[7 := Some (stocks_bucket [Fin 1, Fin 2, Fin 3])])"
  using load_stocks_crlf
  by (simp add: load_Stocks load_STOCKS hash_Stocks hash_stocks_lower hash_STOCKS
      empty_table_7 test_alloc grow_def stocks_bucket_def Let_def)

lemma fopen_single: "fopen test_env ''single.csv'' = Some [''Stocks,1'']"
  by (simp add: test_env_def test_files_def)

lemma main_single_Bonds:
  "main test_env [''engine'', ''single.csv'', ''Bonds''] stack_garbage
     = Some \<lparr>status = Exit 2, printed = None,
             table = empty_table[7 := Some ((stocks_bucket [Fin 1])\<lparr>mean_val := mean [Fin 1] 1\<rparr>)],
             rand_calls = 0\<rparr>"
  by (simp add: main_def fopen_single ingest_single hash_Bonds empty_table_7 stocks_bucket_def
      stand_dev_few fl_eq_def Let_def del: ingest.simps)

lemma main_single_Stocks:
  "main test_env [''engine'', ''single.csv'', ''Stocks''] stack_garbage
     = Some \<lparr>status = Exit 2, printed = None,
             table = empty_table[7 := Some ((stocks_bucket [Fin 1])\<lparr>mean_val := mean [Fin 1] 1\<rparr>)],
             rand_calls = 0\<rparr>"
  by (simp add: main_def fopen_single ingest_single hash_Stocks empty_table_7 stocks_bucket_def
      stand_dev_few fl_eq_def Let_def del: ingest.simps)

lemma hash_Oil: "hash ''Oil'' = 0"
  by code_simp

lemma main_single_Oil:
  "main test_env [''engine'', ''single.csv'', ''Oil''] stack_garbage
     = Some \<lparr>status = Exit 3, printed = None,
             table = empty_table[7 := Some (stocks_bucket [Fin 1])],
             rand_calls = 0\<rparr>"
  by (simp add: main_def fopen_single ingest_single hash_Oil empty_table_7 Let_def
      del: ingest.simps)

lemma sample_records:
  "wf_label ''Stocks''" "wf_label (''stocks'' @ [CHR 0x0D, CHR 0x0A])"
  "norm_label ''Stocks'' = norm_label (''stocks'' @ [CHR 0x0D, CHR 0x0A])"
  "strtok (cstr ''1'') = Some (''1'', [])" "strtok (cstr ''2'') = Some (''2'', [])"
  "clean_label ''Stocks'' = ''Stocks''"
  "clean_label (''stocks'' @ [CHR 0x0D, CHR 0x0A]) = ''stocks''"
  by code_simp+

lemma sample_values:
  "to_float (atof test_env ''1'') = Fin 1" "to_float (atof test_env ''2'') = Fin 2"
  "\<forall>n. can_alloc test_env n"
  by (simp_all add: test_env_def test_atof_def float_123)

lemma hash_empty: "hash [] = 2"
  by code_simp

lemma float_5: "to_float (Fin 5) = Fin 5"
  using to_float_int[of 5] by simp

lemma load_Oil:
  "load test_env ''Oil,5'' d = Inr \<lparr>raw_type = ''Oil'', raw_value = Fin 5\<rparr>"
  by (simp add: load_def strtok_def cstr_def NUL_def is_eol_def test_env_def test_atof_def float_5)

lemma load_no_label: "load test_env '',1'' d = Inr d"
  by (simp add: load_def strtok_def cstr_def NUL_def is_eol_def)

lemma load_cr_label:
  "load test_env (CHR 0x0D # '',2'') d = Inr \<lparr>raw_type = [], raw_value = Fin 2\<rparr>"
  by (simp add: load_def strtok_def cstr_def NUL_def is_eol_def test_env_def test_atof_def float_123)

lemma ingest_empty_label:
  "ingest test_env [''Oil,5'', '',1'', CHR 0x0D # '',2''] stack_garbage empty_table
     = (None, empty_table[0 := Some ((stocks_bucket [Fin 5, Fin 5])\<lparr>type_name := ''Oil''\<rparr>),
                          2 := Some ((stocks_bucket [Fin 2])\<lparr>type_name := []\<rparr>)])"
  by (simp add: load_Oil load_no_label load_cr_label hash_Oil hash_empty empty_table_def
      TABLE_SIZE_def test_alloc grow_def stocks_bucket_def Let_def)

lemma load_long_label:
  "load test_env (long_label @ '',1'') d = Inl Crash"
  by (simp add: load_def strtok_def cstr_def NUL_def is_eol_def long_label_def
      numeral_eq_Suc)

text \<open>
  C6, as the code has it. Take two records whose labels are well formed and differ only in
  letter case and trailing line terminators, each followed by a comma and a text whose first
  token is the value. \<^verbatim>\<open>load\<close> turns each record into its label, cut at the line
  terminator, and the float read from its value token; the two labels have the same bucket
  index; and when every allocation succeeds and the capacity of the bucket can still be
  doubled, the ingestion loop takes both records without an early return, appends both
  values in order to the series at that index, and leaves every other bucket as it was.
\<close>

theorem labels_normalised_to_one_series:
  assumes "wf_label l1" "wf_label l2" "norm_label l1 = norm_label l2"
    and "strtok (cstr v1) = Some (t1, r1)" "strtok (cstr v2) = Some (t2, r2)"
    and "length buckets = 11" "\<forall>n. can_alloc E n"
    and "room_for_two (buckets ! nat (hash (clean_label l1)))"
  shows "load E (l1 @ CHR '','' # v1) d
           = Inr \<lparr>raw_type = clean_label l1, raw_value = to_float (atof E t1)\<rparr>
         \<and> load E (l2 @ CHR '','' # v2) d'
           = Inr \<lparr>raw_type = clean_label l2, raw_value = to_float (atof E t2)\<rparr>
         \<and> hash (clean_label l1) = hash (clean_label l2)
         \<and> (\<exists>b'. ingest E [l1 @ CHR '','' # v1, l2 @ CHR '','' # v2] d buckets = (None, b')
               \<and> length b' = 11
               \<and> series_at b' (nat (hash (clean_label l1)))
                   = series_at buckets (nat (hash (clean_label l1)))
                       @ [to_float (atof E t1), to_float (atof E t2)]
               \<and> (\<forall>j. j \<noteq> nat (hash (clean_label l1)) \<longrightarrow> b' ! j = buckets ! j))"
proof -
  let ?e1 = "\<lparr>raw_type = clean_label l1, raw_value = to_float (atof E t1)\<rparr>"
  let ?e2 = "\<lparr>raw_type = clean_label l2, raw_value = to_float (atof E t2)\<rparr>"
  have e1: "load E (l1 @ CHR '','' # v1) d = Inr ?e1" for d
    using assms(1,4) by (rule load_record)
  have e2: "load E (l2 @ CHR '','' # v2) d = Inr ?e2" for d
    using assms(2,5) by (rule load_record)
  have h: "hash (clean_label l1) = hash (clean_label l2)"
    using assms(3) by (rule hash_clean_label)
  have h': "hash (raw_type ?e1) = hash (raw_type ?e2)"
    using h by simp
  have cap: "room_for_two (buckets ! nat (hash (raw_type ?e1)))"
    using assms(8) by simp
  have "\<exists>b'. ingest E [l1 @ CHR '','' # v1, l2 @ CHR '','' # v2] d buckets = (None, b')
               \<and> length b' = 11
               \<and> series_at b' (nat (hash (raw_type ?e1)))
                   = series_at buckets (nat (hash (raw_type ?e1))) @ [raw_value ?e1, raw_value ?e2]
               \<and> (\<forall>j. j \<noteq> nat (hash (raw_type ?e1)) \<longrightarrow> b' ! j = buckets ! j)"
    using e1 e2 h' assms(6,7) cap by (rule ingest_pair)
  then have s: "\<exists>b'. ingest E [l1 @ CHR '','' # v1, l2 @ CHR '','' # v2] d buckets = (None, b')
               \<and> length b' = 11
               \<and> series_at b' (nat (hash (clean_label l1)))
                   = series_at buckets (nat (hash (clean_label l1)))
                       @ [to_float (atof E t1), to_float (atof E t2)]
               \<and> (\<forall>j. j \<noteq> nat (hash (clean_label l1)) \<longrightarrow> b' ! j = buckets ! j)"
    by simp
  show ?thesis
    by (intro conjI e1 e2 h s)
qed

theorem labels_normalised_to_one_series_witness:
  "load test_env ''Stocks,1'' stack_garbage = Inr \<lparr>raw_type = ''Stocks'', raw_value = Fin 1\<rparr>
   \<and> load test_env (''stocks'' @ [CHR 0x0D, CHR 0x0A] @ '',2'') stack_garbage
        = Inr \<lparr>raw_type = ''stocks'', raw_value = Fin 2\<rparr>
   \<and> hash ''Stocks'' = hash ''stocks''
   \<and> (\<exists>b'. ingest test_env [''Stocks,1'', ''stocks'' @ [CHR 0x0D, CHR 0x0A] @ '',2'']
               stack_garbage empty_table = (None, b')
          \<and> length b' = 11
          \<and> series_at b' 7 = [Fin 1, Fin 2]
          \<and> b' ! 0 = None)
   \<and> ingest test_env [''Stocks,1'', ''stocks'' @ [CHR 0x0D, CHR 0x0A] @ '',2'', ''STOCKS,3'']
         stack_garbage empty_table
       = (None, empty_table[7 := Some (stocks_bucket [Fin 1, Fin 2, Fin 3])])"
proof -
  let ?l1 = "''Stocks''" and ?l2 = "''stocks'' @ [CHR 0x0D, CHR 0x0A]"
  have r: "room_for_two (empty_table ! nat (hash (clean_label ?l1)))"
    by (simp add: sample_records(6) hash_Stocks empty_table_7 room_for_two_def)
  have e: "series_at empty_table 7 = []"
    by (simp add: series_at_def empty_table_7)
  have i: "nat (hash ''Stocks'') = 7"
    by (simp add: hash_Stocks)
  have n: "?l1 @ CHR '','' # ''1'' = ''Stocks,1''"
    "?l2 @ CHR '','' # ''2'' = ''stocks'' @ [CHR 0x0D, CHR 0x0A] @ '',2''"
    by simp_all
  note T = labels_normalised_to_one_series[OF sample_records(1,2,3,4,5) empty_table_7(2)
      sample_values(3) r, of stack_garbage stack_garbage,
      unfolded sample_records(6,7) sample_values(1,2) i e n]
  obtain b' where b':
    "ingest test_env [''Stocks,1'', ''stocks'' @ [CHR 0x0D, CHR 0x0A] @ '',2'']
       stack_garbage empty_table = (None, b')"
    "length b' = 11" "series_at b' 7 = [] @ [Fin 1, Fin 2]" "\<forall>j. j \<noteq> 7 \<longrightarrow> b' ! j = empty_table ! j"
    using T by blast
  have "b' ! 0 = None"
    using b'(4) empty_table_7(3) by simp
  moreover have "series_at b' 7 = [Fin 1, Fin 2]"
    using b'(3) by simp
  ultimately have x: "\<exists>b'. ingest test_env [''Stocks,1'', ''stocks'' @ [CHR 0x0D, CHR 0x0A] @ '',2'']
               stack_garbage empty_table = (None, b')
          \<and> length b' = 11
          \<and> series_at b' 7 = [Fin 1, Fin 2]
          \<and> b' ! 0 = None"
    using b'(1,2) by blast
  show ?thesis
    using T x ingest_stocks by blast
qed

text \<open>
  The claim itself fails for labels that are not well formed. The empty label and the label
  made of one carriage return differ only in a trailing line terminator. The record
  \<^verbatim>\<open>,1\<close> of the first has no label token: \<^verbatim>\<open>load\<close> gives up on it and the loop stores
  the entry of the line before, \<^verbatim>\<open>Oil\<close> with 5, a second time, while the record of the
  second is stored under the empty label at index 2, so the two observations do not share a
  series. And two labels of 20 letters that differ only in letter case do not fit the
  20-byte \<^verbatim>\<open>type\<close> field that \<^verbatim>\<open>load\<close> copies them to.
\<close>

theorem labels_not_normalised_counterexample:
  "norm_label [] = norm_label [CHR 0x0D]
   \<and> ingest test_env [''Oil,5'', '',1'', CHR 0x0D # '',2''] stack_garbage empty_table
       = (None, empty_table[0 := Some ((stocks_bucket [Fin 5, Fin 5])\<lparr>type_name := ''Oil''\<rparr>),
                            2 := Some ((stocks_bucket [Fin 2])\<lparr>type_name := []\<rparr>)])
   \<and> norm_label long_label = norm_label LONG_LABEL
   \<and> length long_label = 20
   \<and> ingest test_env [long_label @ '',1'', LONG_LABEL @ '',2''] stack_garbage empty_table
       = (Some Crash, empty_table)"
proof -
  have 1: "norm_label [] = norm_label [CHR 0x0D]"
    by code_simp
  have 2: "norm_label long_label = norm_label LONG_LABEL"
    by code_simp
  have 3: "length long_label = 20"
    by (simp add: long_label_def)
  have 4: "ingest test_env [long_label @ '',1'', LONG_LABEL @ '',2''] stack_garbage empty_table
       = (Some Crash, empty_table)"
    by (simp add: load_long_label)
  show ?thesis
    by (intro conjI 1 ingest_empty_label 2 3 4)
qed

text \<open>
  C1, at a collision. \<^verbatim>\<open>Stocks\<close> and \<^verbatim>\<open>Bonds\<close> are distinct normalized labels with the
  same bucket index 7. Ingesting one observation of each leaves a single series, named
  \<^verbatim>\<open>Stocks\<close>, that holds both values: the observation made under \<^verbatim>\<open>Bonds\<close> was appended to
  the series of \<^verbatim>\<open>Stocks\<close>.
\<close>

theorem collision_shares_one_series:
  "norm_label ''Stocks'' \<noteq> norm_label ''Bonds''
     \<and> hash ''Stocks'' = 7 \<and> hash ''Bonds'' = 7
     \<and> ingest test_env [''Stocks,1'', ''Bonds,2''] stack_garbage empty_table
         = (None, empty_table[7 := Some (stocks_bucket [Fin 1, Fin 2])])
     \<and> type_name (stocks_bucket [Fin 1, Fin 2]) = ''Stocks''
     \<and> returns (stocks_bucket [Fin 1, Fin 2]) = [Fin 1, Fin 2]"
proof -
  have "norm_label ''Stocks'' \<noteq> norm_label ''Bonds''"
    by code_simp
  then show ?thesis
    by (simp add: hash_Stocks hash_Bonds ingest_collide stocks_bucket_def del: ingest.simps)
qed

subsection \<open>Outcomes of a run\<close>

lemma load_stop: "load E line d = Inl e \<Longrightarrow> e = Crash"
  by (auto simp: load_def Let_def split: option.splits prod.splits if_splits)

lemma ingest_stop: "ingest E ls d b = (Some e, b') \<Longrightarrow> e = Exit 1 \<or> e = Crash"
proof (induction ls arbitrary: d b)
  case Nil
  then show ?case by simp
next
  case (Cons l ls)
  show ?case
  proof (cases "load E l d")
    case (Inl a)
    then show ?thesis
      using Cons.prems load_stop[OF Inl] by simp
  next
    case (Inr c)
    then show ?thesis
      using Cons.prems Cons.IH
      by (auto simp: Let_def split: option.splits)
  qed
qed

text \<open>
  A run that ends with the degenerate-data code has written nothing and has not called
  \<^verbatim>\<open>rand()\<close>: the sampler and both estimators lie behind the test of the deviation.
\<close>

lemma degenerate_run_is_quiet:
  assumes "main E argv d = Some r" "status r = Exit 2"
  shows "printed r = None \<and> rand_calls r = 0"
proof (cases "fopen E (argv ! 1)")
  case None
  then show ?thesis
    using assms by (auto simp: main_def split: if_splits)
next
  case (Some input_data)
  obtain st buckets where i: "ingest E input_data d empty_table = (st, buckets)"
    by (cases "ingest E input_data d empty_table")
  show ?thesis
  proof (cases st)
    case (Some e)
    then show ?thesis
      using assms \<open>fopen E (argv ! 1) = Some input_data\<close> i ingest_stop[of E input_data d empty_table e buckets]
      by (auto simp: main_def split: if_splits)
  next
    case None
    then show ?thesis
      using assms \<open>fopen E (argv ! 1) = Some input_data\<close> i
      by (auto simp: main_def Let_def split: if_splits option.splits prod.splits)
  qed
qed

text \<open>
  C5, at a collision. The file holds one observation of \<^verbatim>\<open>Stocks\<close>. Asked for \<^verbatim>\<open>Bonds\<close>,
  which was never ingested but has the bucket index of \<^verbatim>\<open>Stocks\<close>, the run ends with the
  degenerate-data code 2, the same outcome as for \<^verbatim>\<open>Stocks\<close> itself; only a target with an
  empty bucket, such as \<^verbatim>\<open>Oil\<close>, gets the not-found code 3.
\<close>

theorem never_ingested_target_gets_degenerate_code:
  "map_option status (main test_env [''engine'', ''single.csv'', ''Bonds''] stack_garbage)
     = Some (Exit 2)
   \<and> map_option status (main test_env [''engine'', ''single.csv'', ''Stocks''] stack_garbage)
     = Some (Exit 2)
   \<and> map_option status (main test_env [''engine'', ''single.csv'', ''Oil''] stack_garbage)
     = Some (Exit 3)
   \<and> fopen test_env ''single.csv'' = Some [''Stocks,1'']"
  by (simp add: main_single_Bonds main_single_Stocks main_single_Oil fopen_single)

subsection \<open>The Monte Carlo estimator\<close>

lemma fl_le_total: "a \<noteq> NaN \<Longrightarrow> b \<noteq> NaN \<Longrightarrow> \<not> fl_lt a b \<Longrightarrow> fl_le b a"
  by (cases a; cases b) (auto simp: fl_le_def fl_lt_def fl_eq_def)

lemma fl_le_trans: "fl_le a b \<Longrightarrow> fl_le b c \<Longrightarrow> fl_le a c"
  by (cases a; cases b; cases c) (auto simp: fl_le_def fl_lt_def fl_eq_def)

lemma fl_le_antisym: "fl_le a b \<Longrightarrow> fl_le b a \<Longrightarrow> a = b"
  by (cases a; cases b) (auto simp: fl_le_def fl_lt_def fl_eq_def)

lemma fl_lt_le: "fl_lt a b \<Longrightarrow> fl_le a b"
  by (simp add: fl_le_def)

lemma compare_neg: "compare a b < 0 \<longleftrightarrow> fl_lt a b"
  by (simp add: compare_def)

lemma mset_qsort_insert: "mset (qsort_insert cmp x ys) = add_mset x (mset ys)"
  by (induction ys) simp_all

lemma mset_qsort: "mset (qsort cmp xs) = mset xs"
  by (induction xs) (simp_all add: qsort_def mset_qsort_insert)

lemma set_qsort_insert: "set (qsort_insert cmp x ys) = insert x (set ys)"
  using mset_qsort_insert[of cmp x ys, THEN arg_cong, of set_mset] by simp

lemma ascending_insert:
  assumes "x \<noteq> NaN" "NaN \<notin> set ys" "ascending ys"
  shows "ascending (qsort_insert compare x ys)"
  using assms
proof (induction ys)
  case Nil
  then show ?case by (simp add: ascending_def)
next
  case (Cons y ys)
  show ?case
  proof (cases "fl_lt x y")
    case True
    then have "\<forall>z\<in>set (y # ys). fl_le x z"
      using Cons.prems(3) by (auto simp: ascending_def intro: fl_lt_le fl_le_trans)
    then show ?thesis
      using True Cons.prems(3) by (simp add: compare_neg ascending_def)
  next
    case False
    then have yx: "fl_le y x"
      using Cons.prems(1,2) by (intro fl_le_total) auto
    have "ascending (qsort_insert compare x ys)"
      using Cons by (simp add: ascending_def)
    then show ?thesis
      using False yx Cons.prems(3) by (simp add: compare_neg ascending_def set_qsort_insert)
  qed
qed

lemma ascending_qsort: "NaN \<notin> set xs \<Longrightarrow> ascending (qsort compare xs)"
proof (induction xs)
  case Nil
  then show ?case by (simp add: qsort_def ascending_def)
next
  case (Cons x xs)
  have 1: "NaN \<notin> set (qsort compare xs)"
    using Cons.prems mset_qsort[of compare xs, THEN arg_cong, of set_mset] by simp
  have 2: "x \<noteq> NaN" "ascending (qsort compare xs)"
    using Cons by auto
  have "qsort compare (x # xs) = qsort_insert compare x (qsort compare xs)"
    by (simp add: qsort_def)
  then show ?case
    using ascending_insert[OF 2(1) 1 2(2)] by simp
qed

lemma ascending_unique:
  "ascending xs \<Longrightarrow> ascending ys \<Longrightarrow> mset xs = mset ys \<Longrightarrow> xs = ys"
proof (induction xs arbitrary: ys)
  case Nil
  then show ?case by simp
next
  case (Cons x xs)
  then obtain y ys' where ys: "ys = y # ys'"
    by (cases ys) auto
  have "x \<in> set ys" "y \<in> set (x # xs)"
    using Cons.prems(3) ys by (metis list.set_intros(1) set_mset_mset)+
  then have "fl_le y x \<or> y = x" "fl_le x y \<or> x = y"
    using Cons.prems(1,2) ys by (auto simp: ascending_def)
  then have xy: "x = y"
    using fl_le_antisym by blast
  then have "xs = ys'"
    using Cons ys by (simp add: ascending_def)
  then show ?case
    using xy ys by simp
qed

lemma analyze_sorted:
  assumes "NaN \<notin> set data" "length data = 10000" "ascending s" "mset s = mset data"
  shows "analyze data bucket = bucket\<lparr>worst_case := s ! 499\<rparr>"
proof -
  have "qsort compare data = s"
    using ascending_unique[OF ascending_qsort[OF assms(1)] assms(3)] assms(4) mset_qsort
    by simp
  then show ?thesis
    using assms(2) by (simp add: analyze_def Let_def)
qed

lemma ascending_asc_sample: "ascending asc_sample"
  unfolding ascending_def asc_sample_def sorted_wrt_map
  by (rule sorted_wrt_mono_rel[of _ "(<)"]) (auto simp: fl_le_def fl_lt_def)

lemma asc_sample_props: "NaN \<notin> set asc_sample" "length asc_sample = 10000"
  "asc_sample ! 499 = Fin 499" "asc_sample ! 500 = Fin 500"
  by (auto simp: asc_sample_def)

lemma floor_index: "nat \<lfloor>0.05 * real (10000::nat)\<rfloor> = 500"
  by simp

text \<open>
  C4, as the code has it. A NaN-free sample of 10000 values has exactly one ascending
  arrangement, and \<^verbatim>\<open>analyze\<close> stores the element at index 499 of it, the 500th smallest
  value; that index is \<open>floor (0.05 N) - 1\<close>, one less than \<open>floor (0.05 N) = 500\<close>.
\<close>

theorem analyze_stores_index_499:
  assumes "NaN \<notin> set data" "length data = 10000"
  shows "\<exists>s. ascending s \<and> mset s = mset data
            \<and> (\<forall>t. ascending t \<and> mset t = mset data \<longrightarrow> t = s)
            \<and> analyze data bucket = bucket\<lparr>worst_case := s ! 499\<rparr>
            \<and> worst_case (analyze data bucket) = s ! 499
            \<and> (499::nat) = nat \<lfloor>0.05 * real (length data)\<rfloor> - 1"
proof -
  let ?s = "qsort compare data"
  have a: "ascending ?s" "mset ?s = mset data"
    using assms(1) by (simp_all add: ascending_qsort mset_qsort)
  have u: "\<forall>t. ascending t \<and> mset t = mset data \<longrightarrow> t = ?s"
    using a ascending_unique by auto
  have v: "analyze data bucket = bucket\<lparr>worst_case := ?s ! 499\<rparr>"
    using analyze_sorted[OF assms a] .
  have w: "worst_case (analyze data bucket) = ?s ! 499"
    unfolding v by simp
  have "nat \<lfloor>0.05 * real (10000::nat)\<rfloor> = 500"
    by simp
  then have i: "(499::nat) = nat \<lfloor>0.05 * real (length data)\<rfloor> - 1"
    by (simp only: assms(2))
  show ?thesis
    by (rule exI[of _ ?s]) (intro conjI a u v w i)
qed

theorem analyze_stores_index_499_witness:
  "NaN \<notin> set asc_sample \<and> length asc_sample = 10000
     \<and> (\<forall>bucket. worst_case (analyze asc_sample bucket) = Fin 499)"
proof -
  have "worst_case (analyze asc_sample bucket) = Fin 499" for bucket
  proof -
    obtain s where s: "ascending s" "mset s = mset asc_sample"
      "\<forall>t. ascending t \<and> mset t = mset asc_sample \<longrightarrow> t = s"
      "worst_case (analyze asc_sample bucket) = s ! 499"
      using analyze_stores_index_499[OF asc_sample_props(1,2), of bucket] by blast
    have "asc_sample = s"
      using s(3) ascending_asc_sample by blast
    then show ?thesis
      using s(4) asc_sample_props(3) by simp
  qed
  then show ?thesis
    using asc_sample_props(1,2) by blast
qed

text \<open>
  The claim itself fails in its index formula: on the ascending sample \<open>0, ..., 9999\<close> the
  value stored is 499, while the element at index \<open>floor (0.05 N) = 500\<close> is 500.
\<close>

theorem analyze_index_formula_counterexample:
  "NaN \<notin> set asc_sample \<and> length asc_sample = 10000 \<and> ascending asc_sample
     \<and> nat \<lfloor>0.05 * real (length asc_sample)\<rfloor> = 500
     \<and> asc_sample ! nat \<lfloor>0.05 * real (length asc_sample)\<rfloor> = Fin 500
     \<and> (\<forall>bucket. worst_case (analyze asc_sample bucket) = Fin 499)
     \<and> (\<forall>bucket. worst_case (analyze asc_sample bucket)
           \<noteq> asc_sample ! nat \<lfloor>0.05 * real (length asc_sample)\<rfloor>)"
proof -
  have w: "worst_case (analyze asc_sample bucket) = Fin 499" for bucket
    using analyze_sorted[OF asc_sample_props(1,2) ascending_asc_sample refl, of bucket]
    by (simp add: asc_sample_props(3))
  show ?thesis
    using w ascending_asc_sample by (simp add: asc_sample_props)
qed

subsection \<open>The analytic estimator and its data argument\<close>

text \<open>
  C9. The analytic VaR depends on the mean and the deviation alone: whatever arrays are
  passed as \<^verbatim>\<open>data\<close> (and whatever the portfolio held before), with the same mean and
  deviation \<^verbatim>\<open>rieman\<close> returns in the same cases and stores the same value.
\<close>

theorem rieman_ignores_data:
  "map_option worst_case_rieman (rieman data1 mean' deviation adress1)
     = map_option worst_case_rieman (rieman data2 mean' deviation adress2)"
  by (simp add: rieman_def Let_def split: option.split)

end
